theory Spec2Isabelle
  imports Complex_Main
begin

section \<open>Strings and character classes\<close>

text \<open>
  A Python \<^verbatim>\<open>str\<close> is modelled as a \<^typ>\<open>string\<close>, one \<^typ>\<open>char\<close> per code point: the
  model covers the strings whose code points lie between 0 and 255 (ASCII and Latin-1).
  The character tables below are those of Python 3 on that range. Python's results stay
  in the range with one exception, \<^verbatim>\<open>str.capitalize\<close> on a first character U+00B5 or
  U+00FF, which is described at \<open>capitalize\<close>.
\<close>

definition NL :: char where
  "NL = CHR 0x0A"

text \<open>\<^verbatim>\<open>str.isspace\<close> and the regex class \<^verbatim>\<open>\s\<close>: the code points 9 to 13, 28 to 31
  and 32, the next-line control U+0085 and the no-break space U+00A0.\<close>

definition is_space :: "char \<Rightarrow> bool" where
  "is_space c = (c \<in> set [CHR 0x09, CHR 0x0A, CHR 0x0B, CHR 0x0C, CHR 0x0D,
                            CHR 0x1C, CHR 0x1D, CHR 0x1E, CHR 0x1F, CHR 0x20,
                            CHR 0x85, CHR 0xA0])"

text \<open>\<^verbatim>\<open>str.strip()\<close>: drop the leading and the trailing whitespace.\<close>

definition strip :: "string \<Rightarrow> string" where
  "strip s = rev (dropWhile is_space (rev (dropWhile is_space s)))"

text \<open>\<^verbatim>\<open>s.startswith(p)\<close>, written \<open>startswith p s\<close>; \<^verbatim>\<open>p in s\<close>, written
  \<open>contains p s\<close>.\<close>

fun startswith :: "string \<Rightarrow> string \<Rightarrow> bool" where
  "startswith [] s = True"
| "startswith (p # ps) [] = False"
| "startswith (p # ps) (c # cs) = (p = c \<and> startswith ps cs)"

fun contains :: "string \<Rightarrow> string \<Rightarrow> bool" where
  "contains p [] = startswith p []"
| "contains p (c # cs) = (startswith p (c # cs) \<or> contains p cs)"

section \<open>extract\_video\_id\<close>

text \<open>The class \<^verbatim>\<open>[^&\n?#]\<close> of the capture group.\<close>

definition id_char :: "char \<Rightarrow> bool" where
  "id_char c = (c \<notin> set [CHR ''&'', NL, CHR ''?'', CHR ''#''])"

text \<open>The group \<^verbatim>\<open>([^&\n?#]+)\<close> at the end of both patterns: greedy, at least one
  character, nothing after it.\<close>

definition capture :: "string \<Rightarrow> string option" where
  "capture s = (let g = takeWhile id_char s in if g = [] then None else Some g)"

text \<open>The alternatives of the first pattern, in the order of the source:
  \<^verbatim>\<open>(?:youtube\.com/watch\?v=|youtu\.be/|youtube\.com/embed/)\<close>.\<close>

definition markers :: "string list" where
  "markers = [''youtube.com/watch?v='', ''youtu.be/'', ''youtube.com/embed/'']"

text \<open>An alternation followed by the capture group, matched at the start of \<open>s\<close>: the
  first alternative that is a prefix of \<open>s\<close> and leaves a non-empty capture wins.\<close>

fun match_alternatives :: "string list \<Rightarrow> string \<Rightarrow> string option" where
  "match_alternatives [] s = None"
| "match_alternatives (m # ms) s =
     (if startswith m s then
        (case capture (drop (length m) s) of
           Some g \<Rightarrow> Some g
         | None \<Rightarrow> match_alternatives ms s)
      else match_alternatives ms s)"

definition match1_at :: "string \<Rightarrow> string option" where
  "match1_at s = match_alternatives markers s"

text \<open>
  The tail \<^verbatim>\<open>.*v=([^&\n?#]+)\<close> of the second pattern, matched at the start of \<open>s\<close>. The
  star is greedy and \<^verbatim>\<open>.\<close> does not match a newline: the longest run is tried first, so
  the last \<^verbatim>\<open>v=\<close> of the line that has a non-empty capture behind it wins.
\<close>

definition match_v :: "string \<Rightarrow> string option" where
  "match_v s = (if startswith ''v='' s then capture (drop 2 s) else None)"

fun greedy_v :: "string \<Rightarrow> string option" where
  "greedy_v [] = match_v []"
| "greedy_v (c # cs) =
     (case (if c = NL then None else greedy_v cs) of
        Some g \<Rightarrow> Some g
      | None \<Rightarrow> match_v (c # cs))"

definition match2_at :: "string \<Rightarrow> string option" where
  "match2_at s =
     (if startswith ''youtube.com/watch?'' s
      then greedy_v (drop (length ''youtube.com/watch?'') s) else None)"

text \<open>\<^verbatim>\<open>re.search\<close>: the match at the leftmost start position, the result being group 1.\<close>

fun search :: "(string \<Rightarrow> string option) \<Rightarrow> string \<Rightarrow> string option" where
  "search m [] = m []"
| "search m (c # cs) = (case m (c # cs) of Some g \<Rightarrow> Some g | None \<Rightarrow> search m cs)"

text \<open>The loop over the two patterns, and the fall-through that returns the input.\<close>

fun first_match :: "(string \<Rightarrow> string option) list \<Rightarrow> string \<Rightarrow> string option" where
  "first_match [] url = None"
| "first_match (p # ps) url =
     (case search p url of Some g \<Rightarrow> Some g | None \<Rightarrow> first_match ps url)"

definition extract_video_id :: "string \<Rightarrow> string" where
  "extract_video_id url =
     (case first_match [match1_at, match2_at] url of Some g \<Rightarrow> g | None \<Rightarrow> url)"

section \<open>clean\_transcript\<close>

text \<open>\<^verbatim>\<open>re.sub(r'\s+', ' ', s)\<close>: every maximal run of whitespace becomes one space.\<close>

function collapse_ws :: "string \<Rightarrow> string" where
  "collapse_ws [] = []"
| "collapse_ws (c # cs) =
     (if is_space c then CHR '' '' # collapse_ws (dropWhile is_space cs)
      else c # collapse_ws cs)"
  by pat_completeness auto
termination
  by (relation "measure length") (auto simp: less_Suc_eq_le length_dropWhile_le)

text \<open>
  The lazy body \<^verbatim>\<open>.*?\<close> followed by the closing character \<open>r\<close>: the match ends at the
  first \<open>r\<close>, provided no newline comes before it (\<^verbatim>\<open>.\<close> does not match a newline).
  The result is the text after the closing character.
\<close>

fun find_close :: "char \<Rightarrow> string \<Rightarrow> string option" where
  "find_close r [] = None"
| "find_close r (c # cs) =
     (if c = r then Some cs else if c = NL then None else find_close r cs)"

lemma find_close_length: "find_close r cs = Some rest \<Longrightarrow> length rest < Suc (length cs)"
  by (induction cs) (auto split: if_splits)

text \<open>
  \<^verbatim>\<open>re.sub(r'\[.*?\]', '', s)\<close> and \<^verbatim>\<open>re.sub(r'\(.*?\)', '', s)\<close>, with \<open>l\<close> the opening and
  \<open>r\<close> the closing character: scanning from the left, an opening character that has a
  closing one after it on the same line is removed together with the span up to the
  first such closing character, and the scan goes on behind it; every other character
  is kept.
\<close>

function remove_spans :: "char \<Rightarrow> char \<Rightarrow> string \<Rightarrow> string" where
  "remove_spans l r [] = []"
| "remove_spans l r (c # cs) =
     (if c = l then
        (case find_close r cs of
           Some rest \<Rightarrow> remove_spans l r rest
         | None \<Rightarrow> c # remove_spans l r cs)
      else c # remove_spans l r cs)"
  by pat_completeness auto
termination
  by (relation "measure (\<lambda>(l, r, s). length s)") (auto dest: find_close_length)

text \<open>The argument is \<open>None\<close> for Python's \<^verbatim>\<open>None\<close>; \<^verbatim>\<open>not transcript\<close> holds for
  \<^verbatim>\<open>None\<close> and for the empty string.\<close>

definition clean_transcript :: "string option \<Rightarrow> string" where
  "clean_transcript transcript =
     (case transcript of
        None \<Rightarrow> []
      | Some t \<Rightarrow>
          if t = [] then []
          else
            let cleaned = collapse_ws (strip t);
                cleaned = remove_spans (CHR ''['') (CHR '']'') cleaned;
                cleaned = remove_spans (CHR ''('') (CHR '')'') cleaned
            in strip cleaned)"

section \<open>create\_blog\_outline\<close>

subsection \<open>Sentences and paragraphs\<close>

text \<open>The class \<^verbatim>\<open>[.!?]\<close>.\<close>

definition is_terminator :: "char \<Rightarrow> bool" where
  "is_terminator c = (c \<in> set ''.!?'')"

text \<open>
  \<^verbatim>\<open>re.split(r'[.!?]+', s)\<close>: the pieces between the maximal runs of terminators, the
  piece before the first run and the piece after the last one included (either may be
  empty); a string with no terminator is one piece.
\<close>

function re_split :: "string \<Rightarrow> string list" where
  "re_split s =
     (let piece = takeWhile (\<lambda>c. \<not> is_terminator c) s;
          rest = dropWhile (\<lambda>c. \<not> is_terminator c) s
      in if rest = [] then [piece]
         else piece # re_split (dropWhile is_terminator rest))"
  by pat_completeness auto

lemma dropWhile_terminator_shorter:
  assumes "dropWhile (\<lambda>c. \<not> is_terminator c) s \<noteq> []"
  shows "length (dropWhile is_terminator (dropWhile (\<lambda>c. \<not> is_terminator c) s)) < length s"
proof -
  let ?rest = "dropWhile (\<lambda>c. \<not> is_terminator c) s"
  from assms have "is_terminator (hd ?rest)"
    using hd_dropWhile [of "\<lambda>c. \<not> is_terminator c" s] by simp
  with assms have "length (dropWhile is_terminator ?rest) < length ?rest"
    by (cases ?rest) (simp_all add: less_Suc_eq_le length_dropWhile_le)
  also have "length ?rest \<le> length s"
    by (rule length_dropWhile_le)
  finally show ?thesis .
qed

termination re_split
  by (relation "measure length") (simp_all add: dropWhile_terminator_shorter)

declare re_split.simps [simp del]

text \<open>\<^verbatim>\<open>[s.strip() for s in sentences if s.strip()]\<close>\<close>

definition sentences_of :: "string \<Rightarrow> string list" where
  "sentences_of transcript = map strip (filter (\<lambda>s. strip s \<noteq> []) (re_split transcript))"

text \<open>\<^verbatim>\<open>' '.join(xs)\<close>\<close>

fun join_sp :: "string list \<Rightarrow> string" where
  "join_sp [] = []"
| "join_sp [x] = x"
| "join_sp (x # y # ys) = x @ '' '' @ join_sp (y # ys)"

text \<open>
  The grouping loop, one call per iteration: \<open>i\<close> is the index of \<open>enumerate\<close>, \<open>n\<close> is
  \<^verbatim>\<open>len(sentences)\<close>, \<open>cur\<close> is \<^verbatim>\<open>current_paragraph\<close> and \<open>paras\<close> is \<^verbatim>\<open>paragraphs\<close>.
\<close>

fun group_loop :: "nat \<Rightarrow> nat \<Rightarrow> string list \<Rightarrow> string list \<Rightarrow> string list \<Rightarrow> string list" where
  "group_loop i n [] cur paras = paras"
| "group_loop i n (s # ss) cur paras =
     (let cur' = cur @ [s] in
      if length cur' \<ge> 4 \<or> int i = int n - 1
      then group_loop (Suc i) n ss [] (paras @ [join_sp cur'])
      else group_loop (Suc i) n ss cur' paras)"

definition paragraphs_of :: "string list \<Rightarrow> string list" where
  "paragraphs_of sentences = group_loop 0 (length sentences) sentences [] []"

text \<open>
  The same loop with the groups kept as lists: what \<^verbatim>\<open>current_paragraph\<close> holds each
  time it is joined and appended. The source keeps only the joined strings.
\<close>

fun group_loop_lists ::
  "nat \<Rightarrow> nat \<Rightarrow> string list \<Rightarrow> string list \<Rightarrow> string list list \<Rightarrow> string list list" where
  "group_loop_lists i n [] cur groups = groups"
| "group_loop_lists i n (s # ss) cur groups =
     (let cur' = cur @ [s] in
      if length cur' \<ge> 4 \<or> int i = int n - 1
      then group_loop_lists (Suc i) n ss [] (groups @ [cur'])
      else group_loop_lists (Suc i) n ss cur' groups)"

definition sentence_groups :: "string list \<Rightarrow> string list list" where
  "sentence_groups sentences = group_loop_lists 0 (length sentences) sentences [] []"

subsection \<open>Numbers and case\<close>

text \<open>\<^verbatim>\<open>str(n)\<close> for a natural number: its decimal digits.\<close>

definition digit_char :: "nat \<Rightarrow> char" where
  "digit_char d = ''0123456789'' ! d"

fun string_of_nat :: "nat \<Rightarrow> string" where
  "string_of_nat n =
     (if n < 10 then [digit_char n]
      else string_of_nat (n div 10) @ [digit_char (n mod 10)])"

declare string_of_nat.simps [simp del]

text \<open>
  The cased letters below U+0100 that have their other case there too: A to Z with a to z,
  and U+00C0 to U+00DE (without the sign U+00D7) with U+00E0 to U+00FE (without the sign
  U+00F7), position by position.
\<close>

definition upper_letters :: string where
  "upper_letters =
     ''ABCDEFGHIJKLMNOPQRSTUVWXYZ'' @
     [CHR 0xC0, CHR 0xC1, CHR 0xC2, CHR 0xC3, CHR 0xC4, CHR 0xC5, CHR 0xC6, CHR 0xC7,
      CHR 0xC8, CHR 0xC9, CHR 0xCA, CHR 0xCB, CHR 0xCC, CHR 0xCD, CHR 0xCE, CHR 0xCF,
      CHR 0xD0, CHR 0xD1, CHR 0xD2, CHR 0xD3, CHR 0xD4, CHR 0xD5, CHR 0xD6, CHR 0xD8,
      CHR 0xD9, CHR 0xDA, CHR 0xDB, CHR 0xDC, CHR 0xDD, CHR 0xDE]"

definition lower_letters :: string where
  "lower_letters =
     ''abcdefghijklmnopqrstuvwxyz'' @
     [CHR 0xE0, CHR 0xE1, CHR 0xE2, CHR 0xE3, CHR 0xE4, CHR 0xE5, CHR 0xE6, CHR 0xE7,
      CHR 0xE8, CHR 0xE9, CHR 0xEA, CHR 0xEB, CHR 0xEC, CHR 0xED, CHR 0xEE, CHR 0xEF,
      CHR 0xF0, CHR 0xF1, CHR 0xF2, CHR 0xF3, CHR 0xF4, CHR 0xF5, CHR 0xF6, CHR 0xF8,
      CHR 0xF9, CHR 0xFA, CHR 0xFB, CHR 0xFC, CHR 0xFD, CHR 0xFE]"

text \<open>
  \<^verbatim>\<open>str.lower()\<close>, character by character: an upper-case letter becomes its lower-case
  one, every other character stays (the letters U+00AA, U+00B5, U+00BA, U+00DF and
  U+00FF are lower case already).
\<close>

definition lower_char :: "char \<Rightarrow> char" where
  "lower_char c =
     (case map_of (zip upper_letters lower_letters) c of Some d \<Rightarrow> d | None \<Rightarrow> c)"

definition lower :: "string \<Rightarrow> string" where
  "lower s = map lower_char s"

text \<open>
  \<^verbatim>\<open>str.capitalize()\<close>: the first character in title case, the rest in lower case. The
  title case of a lower-case letter is its upper-case letter, that of U+00DF is the two
  characters \<^verbatim>\<open>Ss\<close>, and every other character below U+0100 is its own title case, with
  two exceptions: Python maps U+00B5 to U+039C and U+00FF to U+0178, which no
  \<^typ>\<open>char\<close> holds. \<open>title_char\<close> keeps these two characters, so for a word that begins
  with one of them \<open>capitalize\<close> differs from Python in that first character.
\<close>

definition upper_char :: "char \<Rightarrow> char" where
  "upper_char c =
     (case map_of (zip lower_letters upper_letters) c of Some d \<Rightarrow> d | None \<Rightarrow> c)"

definition title_char :: "char \<Rightarrow> string" where
  "title_char c = (if c = CHR 0xDF then ''Ss'' else [upper_char c])"

definition capitalize :: "string \<Rightarrow> string" where
  "capitalize s = (case s of [] \<Rightarrow> [] | c # cs \<Rightarrow> title_char c @ lower cs)"

subsection \<open>Word frequencies\<close>

text \<open>
  The class \<^verbatim>\<open>\w\<close> of a \<^verbatim>\<open>str\<close> pattern: the underscore and the alphanumeric characters,
  which below U+0100 are the cased letters above, the digits, the letters U+00AA, U+00B5,
  U+00BA, U+00DF and U+00FF, and the numeric characters U+00B2, U+00B3, U+00B9, U+00BC,
  U+00BD and U+00BE.
\<close>

definition is_word_char :: "char \<Rightarrow> bool" where
  "is_word_char c =
     (c \<in> set (lower_letters @ upper_letters @ ''0123456789_'' @
        [CHR 0xAA, CHR 0xB5, CHR 0xBA, CHR 0xDF, CHR 0xFF,
         CHR 0xB2, CHR 0xB3, CHR 0xB9, CHR 0xBC, CHR 0xBD, CHR 0xBE]))"

text \<open>\<^verbatim>\<open>re.findall(r'\b\w+\b', s)\<close>: the maximal runs of word characters, from the left.\<close>

function find_words :: "string \<Rightarrow> string list" where
  "find_words s =
     (let s' = dropWhile (\<lambda>c. \<not> is_word_char c) s
      in if s' = [] then []
         else takeWhile is_word_char s' # find_words (dropWhile is_word_char s'))"
  by pat_completeness auto

lemma dropWhile_word_shorter:
  assumes "dropWhile (\<lambda>c. \<not> is_word_char c) s \<noteq> []"
  shows "length (dropWhile is_word_char (dropWhile (\<lambda>c. \<not> is_word_char c) s)) < length s"
proof -
  let ?rest = "dropWhile (\<lambda>c. \<not> is_word_char c) s"
  from assms have "is_word_char (hd ?rest)"
    using hd_dropWhile [of "\<lambda>c. \<not> is_word_char c" s] by simp
  with assms have "length (dropWhile is_word_char ?rest) < length ?rest"
    by (cases ?rest) (simp_all add: less_Suc_eq_le length_dropWhile_le)
  also have "length ?rest \<le> length s"
    by (rule length_dropWhile_le)
  finally show ?thesis .
qed

termination find_words
  by (relation "measure length") (simp_all add: dropWhile_word_shorter)

declare find_words.simps [simp del]

text \<open>
  The dictionary \<^verbatim>\<open>word_freq\<close> is an association list in insertion order, the order in
  which a Python \<^verbatim>\<open>dict\<close> iterates: \<open>dict_get\<close> is \<^verbatim>\<open>d.get(k, dflt)\<close>, and \<open>dict_set\<close> is
  \<^verbatim>\<open>d[k] = v\<close>, which keeps the place of a key already present and appends a new key.
\<close>

type_synonym word_freq = "(string \<times> nat) list"

definition dict_get :: "word_freq \<Rightarrow> string \<Rightarrow> nat \<Rightarrow> nat" where
  "dict_get d k dflt = (case map_of d k of Some v \<Rightarrow> v | None \<Rightarrow> dflt)"

fun dict_set :: "word_freq \<Rightarrow> string \<Rightarrow> nat \<Rightarrow> word_freq" where
  "dict_set [] k v = [(k, v)]"
| "dict_set ((k', v') # d) k v =
     (if k' = k then (k, v) # d else (k', v') # dict_set d k v)"

text \<open>The counting loop over \<^verbatim>\<open>words\<close>.\<close>

fun count_words :: "string list \<Rightarrow> word_freq \<Rightarrow> word_freq" where
  "count_words [] d = d"
| "count_words (w # ws) d =
     count_words ws (if length w > 4 then dict_set d w (dict_get d w 0 + 1) else d)"

text \<open>
  \<^verbatim>\<open>sorted(items, key=lambda x: x[1], reverse=True)\<close>: descending by count and stable, so
  that items of equal count keep their order. Every stable sort computes the same list;
  this one inserts from the right, each item in front of the first one whose count is
  not larger.
\<close>

fun insort_desc :: "string \<times> nat \<Rightarrow> word_freq \<Rightarrow> word_freq" where
  "insort_desc x [] = [x]"
| "insort_desc x (y # ys) =
     (if snd y \<le> snd x then x # y # ys else y # insort_desc x ys)"

fun sorted_desc :: "word_freq \<Rightarrow> word_freq" where
  "sorted_desc [] = []"
| "sorted_desc (x # xs) = insort_desc x (sorted_desc xs)"

definition words_of :: "string \<Rightarrow> string list" where
  "words_of transcript = find_words (lower transcript)"

definition top_words :: "string \<Rightarrow> word_freq" where
  "top_words transcript = take 10 (sorted_desc (count_words (words_of transcript) []))"

text \<open>The pairs that get a bullet, in the order of the bullets.\<close>

definition takeaways :: "string \<Rightarrow> word_freq" where
  "takeaways transcript = filter (\<lambda>(word, freq). freq > 2) (top_words transcript)"

subsection \<open>The document\<close>

definition outline_head :: "string \<Rightarrow> string \<Rightarrow> string" where
  "outline_head video_url intro =
     ''# Video Transcript Analysis and Outline'' @ [NL, NL] @
     ''**Source Video:** '' @ video_url @ [NL, NL] @
     ''## Introduction'' @ [NL, NL] @
     intro @ [NL, NL] @
     ''## Main Content Points'' @ [NL, NL]"

definition introduction :: "string list \<Rightarrow> string" where
  "introduction paragraphs =
     (case paragraphs of [] \<Rightarrow> ''No transcript content available.'' | p # _ \<Rightarrow> p)"

definition section_block :: "nat \<Rightarrow> string \<Rightarrow> string" where
  "section_block i paragraph =
     ''### Section '' @ string_of_nat i @ [NL, NL] @ paragraph @ [NL, NL]"

text \<open>The loop over \<^verbatim>\<open>enumerate(paragraphs[1:], 1)\<close>: the blocks it appends, in order.\<close>

fun section_blocks_from :: "nat \<Rightarrow> string list \<Rightarrow> string list" where
  "section_blocks_from i [] = []"
| "section_blocks_from i (p # ps) = section_block i p # section_blocks_from (Suc i) ps"

definition section_blocks :: "string \<Rightarrow> string list" where
  "section_blocks transcript =
     section_blocks_from 1 (drop 1 (paragraphs_of (sentences_of transcript)))"

definition takeaways_head :: string where
  "takeaways_head =
     ''## Key Takeaways'' @ [NL, NL] @
     ''Based on the transcript analysis, the main points discussed include:'' @ [NL, NL]"

definition bullet :: "string \<times> nat \<Rightarrow> string" where
  "bullet x =
     ''- **'' @ capitalize (fst x) @ ''** (mentioned '' @ string_of_nat (snd x) @ '' times)'' @ [NL]"

definition bullets :: "string \<Rightarrow> string list" where
  "bullets transcript = map bullet (takeaways transcript)"

definition conclusion :: string where
  "conclusion =
     [NL] @ ''## Conclusion'' @ [NL, NL] @
     ''This video covers various topics as outlined above. The transcript provides insights into the speaker's main points and discussion themes.'' @ [NL, NL] @
     ''---'' @ [NL, NL] @
     ''*Note: This outline was automatically generated from the video transcript. Some context and nuances may be lost in the automated analysis.*'' @ [NL]"

definition create_blog_outline :: "string \<Rightarrow> string \<Rightarrow> string" where
  "create_blog_outline transcript video_url =
     outline_head video_url (introduction (paragraphs_of (sentences_of transcript))) @
     concat (section_blocks transcript) @
     takeaways_head @
     concat (bullets transcript) @
     conclusion"

section \<open>get\_transcript\<close>

text \<open>
  The caption service is outside the program. The call
  \<^verbatim>\<open>YouTubeTranscriptApi().fetch(video_id, ...)\<close> is modelled by an oracle that takes the
  video id and the \<^verbatim>\<open>languages\<close> argument of the call (\<open>None\<close> when the call passes none)
  and either raises an \<^verbatim>\<open>Exception\<close>, which is \<open>Inl\<close> with the text of the exception, or
  returns a transcript, which is \<open>Inr\<close> with the texts of its entries in order. Joining
  texts cannot fail, so the fetch is the only step of a \<^verbatim>\<open>try\<close> block that raises.
\<close>

type_synonym fetcher = "string \<Rightarrow> string list option \<Rightarrow> string + string list"

text \<open>What a call of \<^verbatim>\<open>get_transcript\<close> leaves behind: the value returned (\<open>None\<close> for
  Python's \<^verbatim>\<open>None\<close>), the fetch calls made, in order, and the lines printed.\<close>

record outcome =
  returned :: "string option"
  calls :: "(string \<times> string list option) list"
  printed :: "string list"

definition get_transcript :: "fetcher \<Rightarrow> string \<Rightarrow> outcome" where
  "get_transcript fetch video_id =
     (case fetch video_id (Some [''en'']) of
        Inr transcript_list \<Rightarrow>
          \<lparr>returned = Some (join_sp transcript_list),
           calls = [(video_id, Some [''en''])],
           printed = []\<rparr>
      | Inl e \<Rightarrow>
          (case fetch video_id None of
             Inr transcript_list \<Rightarrow>
               \<lparr>returned = Some (join_sp transcript_list),
                calls = [(video_id, Some [''en'']), (video_id, None)],
                printed = []\<rparr>
           | Inl e2 \<Rightarrow>
               \<lparr>returned = None,
                calls = [(video_id, Some [''en'']), (video_id, None)],
                printed = [''Error getting transcript: '' @ e2]\<rparr>))"

section \<open>main\<close>

definition video_url :: string where
  "video_url = ''https://www.youtube.com/watch?v=5zFUBD2rRis''"

definition output_file :: string where
  "output_file =
     ''/Users/cloudaistudio/Documents/EVERJUST PROJECTS/JUST-WORK/youtube_transcript_outline.md''"

text \<open>The last line printed:
  \<^verbatim>\<open>outline[:1000] + "..." if len(outline) > 1000 else outline\<close>.\<close>

definition preview :: "string \<Rightarrow> string" where
  "preview outline = (if length outline > 1000 then take 1000 outline @ ''...'' else outline)"

text \<open>
  A run of \<^verbatim>\<open>main\<close>: the text written to the output file (\<open>None\<close> when nothing is
  written), the arguments of the calls of \<^verbatim>\<open>print\<close>, in order (those of
  \<^verbatim>\<open>get_transcript\<close> included), and whether the run ends with an exception. The file system
  is outside the program too: \<open>writable\<close> says whether opening and writing the output file
  succeeds; when it does not, the exception leaves \<^verbatim>\<open>main\<close>. The test
  \<^verbatim>\<open>not transcript\<close> holds for \<^verbatim>\<open>None\<close> and for the empty string.
\<close>

record run =
  written :: "string option"
  shown :: "string list"
  raised :: bool

definition main :: "fetcher \<Rightarrow> bool \<Rightarrow> run" where
  "main fetch writable =
     (let video_id = extract_video_id video_url;
          got = get_transcript fetch video_id;
          start = [''Extracting transcript from: '' @ video_url,
                   ''Video ID: '' @ video_id,
                   ''Fetching transcript...''] @ printed got;
          stop = \<lparr>written = None,
                  shown = start @
                    [''Could not retrieve transcript. The video may not have captions available.''],
                  raised = False\<rparr>
      in case returned got of
           None \<Rightarrow> stop
         | Some transcript \<Rightarrow>
             if transcript = [] then stop
             else
               let cleaned_transcript = clean_transcript (Some transcript);
                   progress = start @
                     [''Transcript length: '' @ string_of_nat (length cleaned_transcript) @
                        '' characters'',
                      ''Creating blog-style outline...''];
                   outline = create_blog_outline cleaned_transcript video_url
               in if \<not> writable
                  then \<lparr>written = None, shown = progress, raised = True\<rparr>
                  else \<lparr>written = Some outline,
                        shown = progress @
                          [''Blog outline saved to: '' @ output_file,
                           [NL] @ replicate 50 (CHR ''=''),
                           ''BLOG OUTLINE PREVIEW:'',
                           replicate 50 (CHR ''=''),
                           preview outline],
                        raised = False\<rparr>)"

section \<open>Notions used to state the properties\<close>

text \<open>The characters of a video identifier: the alphanumeric characters, \<^verbatim>\<open>_\<close> and
  \<^verbatim>\<open>-\<close>.\<close>

definition is_id_letter :: "char \<Rightarrow> bool" where
  "is_id_letter c = (is_word_char c \<or> c = CHR ''-'')"

text \<open>The index of the first occurrence of \<open>x\<close> in a list (its length when \<open>x\<close> does not
  occur), used to state in which order words are first met.\<close>

fun first_index :: "'a list \<Rightarrow> 'a \<Rightarrow> nat" where
  "first_index [] x = 0"
| "first_index (y # ys) x = (if y = x then 0 else Suc (first_index ys x))"

section \<open>Properties of extract\_video\_id\<close>

lemma startswith_append: "startswith p (p @ r)"
  by (induction p) simp_all

lemma startswith_prefix: "startswith (p @ q) t \<Longrightarrow> startswith p t"
proof (induction p arbitrary: t)
  case Nil
  show ?case by simp
next
  case (Cons a p)
  then show ?case by (cases t) simp_all
qed

lemma startswith_drop: "startswith (p @ q) t \<Longrightarrow> startswith q (drop (length p) t)"
proof (induction p arbitrary: t)
  case Nil
  then show ?case by simp
next
  case (Cons a p)
  then show ?case by (cases t) simp_all
qed

lemma startswith_Nil: "startswith p [] \<longleftrightarrow> p = []"
  by (cases p) simp_all

lemma contains_drop: "startswith p (drop i s) \<Longrightarrow> contains p s"
proof (induction s arbitrary: i)
  case Nil
  then show ?case by simp
next
  case (Cons c cs)
  show ?case
  proof (cases i)
    case 0
    with Cons.prems show ?thesis by simp
  next
    case (Suc j)
    with Cons.prems have "startswith p (drop j cs)" by simp
    then have "contains p cs" by (rule Cons.IH)
    then show ?thesis by simp
  qed
qed

text \<open>\<open>search\<close> returns the match at some position, and skips a prefix without one.\<close>

lemma search_Some: "search m s = Some g \<Longrightarrow> \<exists>i. m (drop i s) = Some g"
proof (induction s)
  case Nil
  then show ?case by simp
next
  case (Cons c cs)
  show ?case
  proof (cases "m (c # cs)")
    case (Some h)
    with Cons.prems have "m (drop 0 (c # cs)) = Some g" by simp
    then show ?thesis by blast
  next
    case None
    with Cons.prems have "search m cs = Some g" by simp
    then obtain i where "m (drop i cs) = Some g" using Cons.IH by blast
    then have "m (drop (Suc i) (c # cs)) = Some g" by simp
    then show ?thesis by blast
  qed
qed

lemma search_skip:
  "\<forall>i<length pre. m (drop i (pre @ rest)) = None \<Longrightarrow> search m (pre @ rest) = search m rest"
proof (induction pre)
  case Nil
  show ?case by simp
next
  case (Cons c pre)
  from Cons.prems have "m (drop 0 ((c # pre) @ rest)) = None" by blast
  then have here: "m (c # pre @ rest) = None" by simp
  have "m (drop i (pre @ rest)) = None" if "i < length pre" for i
  proof -
    from that have "Suc i < length (c # pre)" by simp
    with Cons.prems have "m (drop (Suc i) ((c # pre) @ rest)) = None" by blast
    then show ?thesis by simp
  qed
  then have "search m (pre @ rest) = search m rest" using Cons.IH by blast
  with here show ?case by simp
qed

lemma search_hit: "s \<noteq> [] \<Longrightarrow> m s = Some g \<Longrightarrow> search m s = Some g"
  by (cases s) simp_all

lemma match_alternatives_Some:
  "match_alternatives ms t = Some g \<Longrightarrow> \<exists>m\<in>set ms. startswith m t"
  by (induction ms) (auto split: if_splits option.splits)

lemma match2_at_Some: "match2_at t = Some g \<Longrightarrow> startswith ''youtube.com/watch?'' t"
  unfolding match2_at_def by (cases "startswith ''youtube.com/watch?'' t") simp_all

text \<open>The capture group takes exactly an identifier that is followed by nothing or by one
  of the characters the group excludes.\<close>

lemma is_id_letter_id_char: "is_id_letter c \<Longrightarrow> id_char c"
proof -
  have "list_all (\<lambda>c. \<not> is_id_letter c) [CHR ''&'', NL, CHR ''?'', CHR ''#'']"
    by code_simp
  then show "is_id_letter c \<Longrightarrow> id_char c"
    unfolding id_char_def list_all_iff by blast
qed

lemma capture_identifier:
  assumes "I \<noteq> []" and "\<forall>c\<in>set I. is_id_letter c" and "suf = [] \<or> \<not> id_char (hd suf)"
  shows "capture (I @ suf) = Some I"
proof -
  from assms(2) have "\<forall>c\<in>set I. id_char c"
    by (blast intro: is_id_letter_id_char)
  then have "takeWhile id_char (I @ suf) = I @ takeWhile id_char suf"
    by (simp add: takeWhile_append2)
  moreover from assms(3) have "takeWhile id_char suf = []"
    by (cases suf) auto
  ultimately show ?thesis using assms(1) by (simp add: capture_def)
qed


lemma match1_at_marker:
  assumes "m \<in> set markers" and "capture r = Some g"
  shows "match1_at (m @ r) = Some g"
proof -
  from assms(1) consider "m = ''youtube.com/watch?v=''" | "m = ''youtu.be/''"
    | "m = ''youtube.com/embed/''"
    unfolding markers_def by auto
  then show ?thesis
  proof cases
    case 1
    then show ?thesis using assms(2) by (simp add: match1_at_def markers_def)
  next
    case 2
    then show ?thesis using assms(2) by (simp add: match1_at_def markers_def)
  next
    case 3
    then show ?thesis using assms(2) by (simp add: match1_at_def markers_def)
  qed
qed

lemma list_all_upt: "list_all P [0..<n] \<Longrightarrow> \<forall>i<n. P i"
  by (simp add: list_all_iff)

lemma marker_not_Nil: "m \<in> set markers \<Longrightarrow> m \<noteq> []"
  unfolding markers_def by auto

lemma match1_at_contains:
  assumes "match1_at t = Some g"
  shows "startswith ''youtube.com/watch?'' t \<or> startswith ''youtu.be/'' t
    \<or> startswith ''embed/'' (drop 12 t)"
proof -
  from assms obtain m where "m \<in> set markers" and m: "startswith m t"
    unfolding match1_at_def using match_alternatives_Some by blast
  then consider "m = ''youtube.com/watch?v=''" | "m = ''youtu.be/''"
    | "m = ''youtube.com/embed/''"
    unfolding markers_def by auto
  then show ?thesis
  proof cases
    case 1
    with m have "startswith (''youtube.com/watch?'' @ ''v='') t" by simp
    then have "startswith ''youtube.com/watch?'' t" by (rule startswith_prefix)
    then show ?thesis by blast
  next
    case 2
    with m show ?thesis by blast
  next
    case 3
    with m have "startswith (''youtube.com/'' @ ''embed/'') t" by simp
    then have "startswith ''embed/'' (drop (length ''youtube.com/'') t)"
      by (rule startswith_drop)
    moreover have "length ''youtube.com/'' = 12"
      by simp
    ultimately have "startswith ''embed/'' (drop 12 t)"
      by (simp only:)
    then show ?thesis by blast
  qed
qed

text \<open>
  C1, as stated: an input that contains none of \<^verbatim>\<open>watch?v=\<close>, \<^verbatim>\<open>youtu.be/\<close> and
  \<^verbatim>\<open>embed/\<close> would come back unchanged. It does not always: the second pattern finds a
  \<^verbatim>\<open>v=\<close> parameter that is not the first one of a watch URL.
\<close>

theorem extract_video_id_counterexample:
  "\<not> contains ''watch?v='' ''youtube.com/watch?feature=share&v=abc''
   \<and> \<not> contains ''youtu.be/'' ''youtube.com/watch?feature=share&v=abc''
   \<and> \<not> contains ''embed/'' ''youtube.com/watch?feature=share&v=abc''
   \<and> extract_video_id ''youtube.com/watch?feature=share&v=abc'' = ''abc''
   \<and> extract_video_id ''youtube.com/watch?feature=share&v=abc'' \<noteq>
       ''youtube.com/watch?feature=share&v=abc''"
  by code_simp

lemma match1_at_None:
  assumes "\<forall>m\<in>set markers. \<not> startswith m t"
  shows "match1_at t = None"
proof (cases "match1_at t")
  case None
  then show ?thesis .
next
  case (Some g)
  then have "\<exists>m\<in>set markers. startswith m t"
    unfolding match1_at_def by (rule match_alternatives_Some)
  with assms show ?thesis by blast
qed

text \<open>
  C1, amended. Take an input \<open>pre @ m @ I @ suf\<close> in which \<open>m\<close> is one of the three
  markers \<^verbatim>\<open>youtube.com/watch?v=\<close>, \<^verbatim>\<open>youtu.be/\<close> and \<^verbatim>\<open>youtube.com/embed/\<close> and no marker
  starts further left, the identifier \<open>I\<close> is not empty and made of alphanumeric
  characters, \<^verbatim>\<open>_\<close> and \<^verbatim>\<open>-\<close>, and what follows it is nothing or starts with one of
  \<^verbatim>\<open>&\<close>, newline, \<^verbatim>\<open>?\<close> and \<^verbatim>\<open>#\<close>: the result is \<open>I\<close>. An input that contains none of
  \<^verbatim>\<open>watch?v=\<close>, \<^verbatim>\<open>youtu.be/\<close> and \<^verbatim>\<open>embed/\<close>, and does not contain \<^verbatim>\<open>youtube.com/watch?\<close>
  either, comes back unchanged.
\<close>

theorem extract_video_id_shapes:
  "(m \<in> set [''youtube.com/watch?v='', ''youtu.be/'', ''youtube.com/embed/'']
      \<and> (\<forall>i<length pre.
            \<forall>m'\<in>set [''youtube.com/watch?v='', ''youtu.be/'', ''youtube.com/embed/''].
              \<not> startswith m' (drop i (pre @ m @ I @ suf)))
      \<and> I \<noteq> [] \<and> (\<forall>c\<in>set I. is_id_letter c)
      \<and> (suf = [] \<or> hd suf \<in> set [CHR ''&'', NL, CHR ''?'', CHR ''#''])
      \<longrightarrow> extract_video_id (pre @ m @ I @ suf) = I)
   \<and> (\<not> contains ''watch?v='' s \<and> \<not> contains ''youtu.be/'' s \<and> \<not> contains ''embed/'' s
      \<and> \<not> contains ''youtube.com/watch?'' s
      \<longrightarrow> extract_video_id s = s)"
proof -
  have shape: "extract_video_id (pre @ m @ I @ suf) = I"
    if m: "m \<in> set [''youtube.com/watch?v='', ''youtu.be/'', ''youtube.com/embed/'']"
      and first: "\<forall>i<length pre.
            \<forall>m'\<in>set [''youtube.com/watch?v='', ''youtu.be/'', ''youtube.com/embed/''].
              \<not> startswith m' (drop i (pre @ m @ I @ suf))"
      and I: "I \<noteq> []" "\<forall>c\<in>set I. is_id_letter c"
      and suf: "suf = [] \<or> hd suf \<in> set [CHR ''&'', NL, CHR ''?'', CHR ''#'']"
  proof -
    from m have marker: "m \<in> set markers"
      by (simp only: markers_def)
    from suf have "suf = [] \<or> \<not> id_char (hd suf)"
      by (simp only: id_char_def not_not)
    with I have "capture (I @ suf) = Some I"
      by (rule capture_identifier)
    with marker have "match1_at (m @ I @ suf) = Some I"
      by (rule match1_at_marker)
    moreover have "m @ I @ suf \<noteq> []"
      using marker marker_not_Nil by simp
    ultimately have "search match1_at (m @ I @ suf) = Some I"
      by (intro search_hit)
    moreover have "\<forall>i<length pre. match1_at (drop i (pre @ m @ I @ suf)) = None"
      using first by (simp only: markers_def [symmetric]) (blast intro: match1_at_None)
    then have "search match1_at (pre @ m @ I @ suf) = search match1_at (m @ I @ suf)"
      by (rule search_skip)
    ultimately show ?thesis
      by (simp add: extract_video_id_def)
  qed
  have bare: "extract_video_id s = s"
    if none: "\<not> contains ''youtu.be/'' s" "\<not> contains ''embed/'' s"
      "\<not> contains ''youtube.com/watch?'' s"
  proof -
    have no1: "search match1_at s = None"
    proof (cases "search match1_at s")
      case None
      then show ?thesis .
    next
      case (Some g)
      then obtain i where "match1_at (drop i s) = Some g"
        using search_Some by blast
      then have "startswith ''youtube.com/watch?'' (drop i s)
          \<or> startswith ''youtu.be/'' (drop i s)
          \<or> startswith ''embed/'' (drop (i + 12) s)"
        using match1_at_contains [of "drop i s" g] by (simp add: add.commute)
      then have "contains ''youtube.com/watch?'' s \<or> contains ''youtu.be/'' s
          \<or> contains ''embed/'' s"
        using contains_drop by blast
      with none show ?thesis by blast
    qed
    have no2: "search match2_at s = None"
    proof (cases "search match2_at s")
      case None
      then show ?thesis .
    next
      case (Some g)
      then obtain i where "match2_at (drop i s) = Some g"
        using search_Some by blast
      then have "startswith ''youtube.com/watch?'' (drop i s)"
        by (rule match2_at_Some)
      then have "contains ''youtube.com/watch?'' s"
        by (rule contains_drop)
      with none show ?thesis by blast
    qed
    show ?thesis
      by (simp add: extract_video_id_def no1 no2)
  qed
  from shape bare show ?thesis by blast
qed

theorem extract_video_id_shapes_witness:
  "''5zFUBD2rRis'' \<noteq> []
   \<and> extract_video_id ''https://www.youtube.com/watch?v=5zFUBD2rRis&t=10s'' = ''5zFUBD2rRis''
   \<and> \<not> contains ''youtube.com/watch?'' ''5zFUBD2rRis''
   \<and> extract_video_id ''5zFUBD2rRis'' = ''5zFUBD2rRis''"
proof -
  have m: "''youtube.com/watch?v='' \<in>
      set [''youtube.com/watch?v='', ''youtu.be/'', ''youtube.com/embed/'']"
    by simp
  have I: "''5zFUBD2rRis'' \<noteq> [] \<and> (\<forall>c\<in>set ''5zFUBD2rRis''. is_id_letter c)"
    by code_simp
  have suf: "''&t=10s'' = [] \<or> hd ''&t=10s'' \<in> set [CHR ''&'', NL, CHR ''?'', CHR ''#'']"
    by simp
  have "list_all (\<lambda>i. list_all (\<lambda>m'. \<not> startswith m' (drop i (''https://www.'' @
      ''youtube.com/watch?v='' @ ''5zFUBD2rRis'' @ ''&t=10s'')))
        [''youtube.com/watch?v='', ''youtu.be/'', ''youtube.com/embed/''])
      [0..<length ''https://www.'']"
    by code_simp
  then have first: "\<forall>i<length ''https://www.''.
      \<forall>m'\<in>set [''youtube.com/watch?v='', ''youtu.be/'', ''youtube.com/embed/''].
        \<not> startswith m' (drop i (''https://www.'' @ ''youtube.com/watch?v='' @
          ''5zFUBD2rRis'' @ ''&t=10s''))"
    unfolding list_all_iff [of _ "[''youtube.com/watch?v='', ''youtu.be/'', ''youtube.com/embed/'']"]
    by (rule list_all_upt)
  have none: "\<not> contains ''watch?v='' ''5zFUBD2rRis'' \<and> \<not> contains ''youtu.be/'' ''5zFUBD2rRis''
      \<and> \<not> contains ''embed/'' ''5zFUBD2rRis''
      \<and> \<not> contains ''youtube.com/watch?'' ''5zFUBD2rRis''"
    by code_simp
  from extract_video_id_shapes [where m = "''youtube.com/watch?v=''" and I = "''5zFUBD2rRis''"
      and suf = "''&t=10s''" and pre = "''https://www.''" and s = "''5zFUBD2rRis''"]
    m I suf first none
  have "extract_video_id (''https://www.'' @ ''youtube.com/watch?v='' @ ''5zFUBD2rRis'' @
      ''&t=10s'') = ''5zFUBD2rRis''"
    and "extract_video_id ''5zFUBD2rRis'' = ''5zFUBD2rRis''"
    by blast+
  with I none show ?thesis by simp
qed

section \<open>Properties of clean\_transcript\<close>

text \<open>
  C8: \<open>clean_transcript\<close> returns the empty string on the empty string, and on
  \<^verbatim>\<open>None\<close> it returns the empty string as well, raising nothing.
\<close>

theorem clean_transcript_empty:
  "clean_transcript (Some []) = [] \<and> clean_transcript None = []"
  by (simp add: clean_transcript_def)

text \<open>
  C2: on \<^verbatim>\<open>"Hello [Music] world (laughs) today"\<close> the function does not return the
  whitespace-normalised \<^verbatim>\<open>"Hello world today"\<close>. The whitespace runs are collapsed
  first, when the input has none to collapse; removing \<^verbatim>\<open>[Music]\<close> and then
  \<^verbatim>\<open>(laughs)\<close> brings the space before and the space after each span together, and
  the closing trim touches only the ends. The result is \<^verbatim>\<open>"Hello  world  today"\<close>, with
  two runs of two spaces; collapsing the whitespace once more, after the removals, would
  give \<^verbatim>\<open>"Hello world today"\<close>.
\<close>

theorem clean_transcript_example:
  "collapse_ws (strip ''Hello [Music] world (laughs) today'') =
     ''Hello [Music] world (laughs) today''
   \<and> remove_spans (CHR ''['') (CHR '']'') ''Hello [Music] world (laughs) today'' =
       ''Hello  world (laughs) today''
   \<and> remove_spans (CHR ''('') (CHR '')'') ''Hello  world (laughs) today'' =
       ''Hello  world  today''
   \<and> strip ''Hello  world  today'' = ''Hello  world  today''
   \<and> clean_transcript (Some ''Hello [Music] world (laughs) today'') =
       ''Hello  world  today''
   \<and> clean_transcript (Some ''Hello [Music] world (laughs) today'') \<noteq>
       ''Hello world today''
   \<and> collapse_ws ''Hello  world  today'' = ''Hello world today''"
  by code_simp

section \<open>Properties of create\_blog\_outline\<close>

subsection \<open>The grouping loop\<close>

lemma group_loop_lists_flush:
  "length (cur @ [s]) \<ge> 4 \<or> int i = int n - 1 \<Longrightarrow>
   group_loop_lists i n (s # ss) cur groups =
   group_loop_lists (Suc i) n ss [] (groups @ [cur @ [s]])"
  by (simp add: Let_def)

lemma group_loop_lists_keep:
  "\<not> (length (cur @ [s]) \<ge> 4 \<or> int i = int n - 1) \<Longrightarrow>
   group_loop_lists i n (s # ss) cur groups =
   group_loop_lists (Suc i) n ss (cur @ [s]) groups"
  by (simp add: Let_def)

text \<open>Unless the step closes the group, a sentence is left: the last one always closes.\<close>

lemma group_loop_keep_more:
  assumes "i + length (s # ss) = n" and "\<not> (length (cur @ [s]) \<ge> 4 \<or> int i = int n - 1)"
  shows "ss \<noteq> []"
proof
  assume "ss = []"
  with assms(1) have "int n = int i + 1" by simp
  with assms(2) show False by simp
qed

lemma group_loop_lists_sizes:
  "\<forall>g\<in>set groups. 1 \<le> length g \<and> length g \<le> 4 \<Longrightarrow> length cur < 4 \<Longrightarrow>
   \<forall>g\<in>set (group_loop_lists i n ss cur groups). 1 \<le> length g \<and> length g \<le> 4"
proof (induction ss arbitrary: i cur groups)
  case Nil
  then show ?case by simp
next
  case (Cons s ss)
  show ?case
  proof (cases "length (cur @ [s]) \<ge> 4 \<or> int i = int n - 1")
    case True
    have "\<forall>g\<in>set (groups @ [cur @ [s]]). 1 \<le> length g \<and> length g \<le> 4"
      using Cons.prems by simp
    then have "\<forall>g\<in>set (group_loop_lists (Suc i) n ss [] (groups @ [cur @ [s]])).
        1 \<le> length g \<and> length g \<le> 4"
      by (rule Cons.IH) simp
    then show ?thesis by (simp only: group_loop_lists_flush [OF True])
  next
    case False
    then have "length (cur @ [s]) < 4" by simp
    with Cons.prems(1) have "\<forall>g\<in>set (group_loop_lists (Suc i) n ss (cur @ [s]) groups).
        1 \<le> length g \<and> length g \<le> 4"
      by (rule Cons.IH)
    then show ?thesis by (simp only: group_loop_lists_keep [OF False])
  qed
qed

text \<open>
  The invariant of the loop: \<open>i\<close> sentences are done and \<open>length ss\<close> are left, the open
  group holds fewer than 4 sentences, and it is empty once the input is exhausted
  (the last sentence always closes its group).
\<close>

lemma group_loop_lists_length:
  "i + length ss = n \<Longrightarrow> length cur < 4 \<Longrightarrow> (ss = [] \<longrightarrow> cur = []) \<Longrightarrow>
   length (group_loop_lists i n ss cur groups) =
   length groups + (length cur + length ss + 3) div 4"
proof (induction ss arbitrary: i cur groups)
  case Nil
  then show ?case by simp
next
  case (Cons s ss)
  have next_i: "Suc i + length ss = n" using Cons.prems(1) by simp
  show ?case
  proof (cases "length (cur @ [s]) \<ge> 4 \<or> int i = int n - 1")
    case True
    have "length (group_loop_lists (Suc i) n ss [] (groups @ [cur @ [s]])) =
        length (groups @ [cur @ [s]]) + (length ([]::string list) + length ss + 3) div 4"
      using next_i by (rule Cons.IH) simp_all
    then have run: "length (group_loop_lists i n (s # ss) cur groups) =
        Suc (length groups) + (length ss + 3) div 4"
      by (simp only: group_loop_lists_flush [OF True]) simp
    have "Suc ((length ss + 3) div 4) = (length cur + Suc (length ss) + 3) div 4"
    proof (cases "length (cur @ [s]) \<ge> 4")
      case True
      with Cons.prems(2) have "length cur = 3" by simp
      then show ?thesis by simp
    next
      case False
      with True have "int i = int n - 1" by simp
      moreover have "int n = int i + int (length ss) + 1" using Cons.prems(1) by simp
      ultimately have "ss = []" by simp
      with False show ?thesis by simp
    qed
    with run show ?thesis by simp
  next
    case False
    have "ss \<noteq> []" using Cons.prems(1) False by (rule group_loop_keep_more)
    moreover from False have "length (cur @ [s]) < 4" by simp
    ultimately have "length (group_loop_lists (Suc i) n ss (cur @ [s]) groups) =
        length groups + (length (cur @ [s]) + length ss + 3) div 4"
      using next_i by (intro Cons.IH) simp_all
    then show ?thesis by (simp only: group_loop_lists_keep [OF False]) simp
  qed
qed

lemma group_loop_lists_concat:
  "i + length ss = n \<Longrightarrow> (ss = [] \<longrightarrow> cur = []) \<Longrightarrow>
   concat (group_loop_lists i n ss cur groups) = concat groups @ cur @ ss"
proof (induction ss arbitrary: i cur groups)
  case Nil
  then show ?case by simp
next
  case (Cons s ss)
  have next_i: "Suc i + length ss = n" using Cons.prems(1) by simp
  show ?case
  proof (cases "length (cur @ [s]) \<ge> 4 \<or> int i = int n - 1")
    case True
    have "concat (group_loop_lists (Suc i) n ss [] (groups @ [cur @ [s]])) =
        concat (groups @ [cur @ [s]]) @ [] @ ss"
      using next_i by (rule Cons.IH) simp
    then show ?thesis by (simp only: group_loop_lists_flush [OF True]) simp
  next
    case False
    have "ss \<noteq> []" using Cons.prems(1) False by (rule group_loop_keep_more)
    then have "concat (group_loop_lists (Suc i) n ss (cur @ [s]) groups) =
        concat groups @ (cur @ [s]) @ ss"
      using next_i by (intro Cons.IH) simp_all
    then show ?thesis by (simp only: group_loop_lists_keep [OF False]) simp
  qed
qed

text \<open>The source's loop computes the joined groups.\<close>

lemma group_loop_joined:
  "group_loop i n ss cur (map join_sp groups) =
   map join_sp (group_loop_lists i n ss cur groups)"
proof (induction ss arbitrary: i cur groups)
  case Nil
  show ?case by simp
next
  case (Cons s ss)
  have flush: "group_loop (Suc i) n ss [] (map join_sp groups @ [join_sp (cur @ [s])]) =
      map join_sp (group_loop_lists (Suc i) n ss [] (groups @ [cur @ [s]]))"
    using Cons.IH [of "Suc i" "[]" "groups @ [cur @ [s]]"] by simp
  have keep: "group_loop (Suc i) n ss (cur @ [s]) (map join_sp groups) =
      map join_sp (group_loop_lists (Suc i) n ss (cur @ [s]) groups)"
    by (rule Cons.IH)
  show ?case
    by (simp only: group_loop.simps group_loop_lists.simps Let_def flush keep
        if_distrib [of "map join_sp"] cong: if_cong)
qed

lemma paragraphs_of_groups: "paragraphs_of ss = map join_sp (sentence_groups ss)"
  using group_loop_joined [of 0 "length ss" ss "[]" "[]"]
  by (simp add: paragraphs_of_def sentence_groups_def)

lemma section_blocks_from_length: "length (section_blocks_from i ps) = length ps"
  by (induction ps arbitrary: i) simp_all

lemma ceiling_quarter: "\<lceil>real n / 4\<rceil> = int ((n + 3) div 4)"
proof -
  have "\<lceil>real n / 4\<rceil> = \<lceil>of_int (int n) / (of_int 4 :: real)\<rceil>" by simp
  also have "\<dots> = - (- int n div 4)" by (rule ceiling_divide_eq_div)
  also have "\<dots> = int ((n + 3) div 4)" by (simp add: zdiv_int)
  finally show ?thesis .
qed

lemma sentence_groups_sizes:
  "\<forall>g\<in>set (sentence_groups ss). 1 \<le> length g \<and> length g \<le> 4"
  unfolding sentence_groups_def by (rule group_loop_lists_sizes) simp_all

lemma sentence_groups_length: "length (sentence_groups ss) = (length ss + 3) div 4"
  unfolding sentence_groups_def
  using group_loop_lists_length [of 0 ss "length ss" "[]" "[]"] by simp

lemma sentence_groups_concat: "concat (sentence_groups ss) = ss"
  unfolding sentence_groups_def
  using group_loop_lists_concat [of 0 ss "length ss" "[]" "[]"] by simp

lemma section_blocks_length:
  "length (section_blocks t) = (length (sentences_of t) + 3) div 4 - 1"
  by (simp add: section_blocks_def section_blocks_from_length paragraphs_of_groups
      sentence_groups_length)

lemma length5_cases: "length ss = 5 \<Longrightarrow> \<exists>a b c d e. ss = [a, b, c, d, e]"
  by (auto simp: length_Suc_conv eval_nat_numeral)

lemma sentence_groups_five:
  assumes "length ss = 5"
  shows "sentence_groups ss = [take 4 ss, [ss ! 4]]"
proof -
  from assms obtain a b c d e where ss: "ss = [a, b, c, d, e]"
    using length5_cases by blast
  show ?thesis unfolding ss by (simp add: sentence_groups_def)
qed

text \<open>
  C3: the transcript \<^verbatim>\<open>"A. B! C? D"\<close> splits into the four sentences A, B, C, D (the pieces
  between the runs of terminators, trimmed, the empty ones dropped), which form a single
  paragraph; and whenever a transcript has 5 sentences there are exactly two paragraphs,
  the first made of sentences 1 to 4 and the second of sentence 5 alone.
\<close>

theorem paragraphs_of_four_and_five:
  "re_split ''A. B! C? D'' = [''A'', '' B'', '' C'', '' D'']
   \<and> sentences_of ''A. B! C? D'' = [''A'', ''B'', ''C'', ''D'']
   \<and> sentence_groups (sentences_of ''A. B! C? D'') = [[''A'', ''B'', ''C'', ''D'']]
   \<and> paragraphs_of (sentences_of ''A. B! C? D'') = [''A B C D'']
   \<and> (length (sentences_of t) = 5 \<longrightarrow>
        sentence_groups (sentences_of t) = [take 4 (sentences_of t), [sentences_of t ! 4]]
        \<and> paragraphs_of (sentences_of t) =
            [join_sp (take 4 (sentences_of t)), sentences_of t ! 4])"
proof -
  have split: "re_split ''A. B! C? D'' = [''A'', '' B'', '' C'', '' D'']"
    by code_simp
  have four: "sentences_of ''A. B! C? D'' = [''A'', ''B'', ''C'', ''D'']"
    by code_simp
  have groups: "sentence_groups (sentences_of ''A. B! C? D'') = [[''A'', ''B'', ''C'', ''D'']]"
    by code_simp
  have paras: "paragraphs_of (sentences_of ''A. B! C? D'') = [''A B C D'']"
    by code_simp
  have five: "sentence_groups (sentences_of t) = [take 4 (sentences_of t), [sentences_of t ! 4]]
      \<and> paragraphs_of (sentences_of t) =
          [join_sp (take 4 (sentences_of t)), sentences_of t ! 4]"
    if "length (sentences_of t) = 5"
    using sentence_groups_five [OF that] by (simp add: paragraphs_of_groups)
  from split four groups paras five show ?thesis by blast
qed

theorem paragraphs_of_four_and_five_witness:
  "length (sentences_of ''One. Two! Three? Four. Five'') = 5
   \<and> paragraphs_of (sentences_of ''One. Two! Three? Four. Five'') =
       [''One Two Three Four'', ''Five'']"
proof -
  have len: "length (sentences_of ''One. Two! Three? Four. Five'') = 5"
    by code_simp
  have ss: "sentences_of ''One. Two! Three? Four. Five'' =
      [''One'', ''Two'', ''Three'', ''Four'', ''Five'']"
    by code_simp
  from paragraphs_of_four_and_five [of "''One. Two! Three? Four. Five''"] len
  have "paragraphs_of (sentences_of ''One. Two! Three? Four. Five'') =
      [join_sp (take 4 (sentences_of ''One. Two! Three? Four. Five'')),
       sentences_of ''One. Two! Three? Four. Five'' ! 4]"
    by blast
  then have "paragraphs_of (sentences_of ''One. Two! Three? Four. Five'') =
      [''One Two Three Four'', ''Five'']"
    by (simp add: ss)
  with len show ?thesis by blast
qed

text \<open>The loop over \<^verbatim>\<open>enumerate(paragraphs[1:], 1)\<close> appends one block for each index from
  1 on, headed by the index and holding the paragraph at that index.\<close>

lemma section_blocks_from_drop:
  "section_blocks_from j (drop j ps) = map (\<lambda>i. section_block i (ps ! i)) [j..<length ps]"
proof (induction "length ps - j" arbitrary: j)
  case 0
  then show ?case by simp
next
  case (Suc d)
  then have less: "j < length ps" and rest: "d = length ps - Suc j"
    by simp_all
  from less have "drop j ps = ps ! j # drop (Suc j) ps"
    by (simp add: Cons_nth_drop_Suc)
  moreover from less have "[j..<length ps] = j # [Suc j..<length ps]"
    by (rule upt_conv_Cons)
  ultimately show ?case
    using Suc.hyps(1) [OF rest] by simp
qed

lemma paragraphs_of_length: "length (paragraphs_of ss) = (length ss + 3) div 4"
  by (simp add: paragraphs_of_groups sentence_groups_length)

lemma section_count: "nat (max 0 (\<lceil>real n / 4\<rceil> - 1)) = (n + 3) div 4 - 1"
  unfolding ceiling_quarter by simp

lemma section_blocks_nth:
  "section_blocks t =
   map (\<lambda>i. ''### Section '' @ string_of_nat i @ [NL, NL] @
          paragraphs_of (sentences_of t) ! i @ [NL, NL])
     [1..<Suc (nat (max 0 (\<lceil>real (length (sentences_of t)) / 4\<rceil> - 1)))]"
proof -
  let ?ps = "paragraphs_of (sentences_of t)"
  have "[1..<Suc (length ?ps - 1)] = [1..<length ?ps]"
    by (cases "length ?ps") simp_all
  then have "[1..<Suc (nat (max 0 (\<lceil>real (length (sentences_of t)) / 4\<rceil> - 1)))] =
      [1..<length ?ps]"
    by (simp only: section_count paragraphs_of_length)
  then show ?thesis
    unfolding section_blocks_def
    using section_blocks_from_drop [of 1 ?ps]
    by (simp only: section_block_def)
qed

text \<open>
  C9: for every transcript, each group of sentences that the loop closes holds at least 1
  and at most 4 sentences; the paragraphs are these groups joined by spaces, and the
  groups together are the sentences in order. With \<open>n\<close> sentences, the document holds
  \<open>max 0 (\<lceil>n / 4\<rceil> - 1)\<close> blocks \<^verbatim>\<open>### Section i\<close>, one for each \<open>i\<close> from 1 up to that
  number, each followed by the paragraph of index \<open>i\<close>; they stand between the heading
  \<^verbatim>\<open>## Main Content Points\<close> and the heading \<^verbatim>\<open>## Key Takeaways\<close>, and the rest of the
  document is the head with the introduction, the bullets and the conclusion.
\<close>

theorem paragraph_groups_bounds:
  "(\<forall>g\<in>set (sentence_groups (sentences_of t)). 1 \<le> length g \<and> length g \<le> 4)
   \<and> paragraphs_of (sentences_of t) = map join_sp (sentence_groups (sentences_of t))
   \<and> concat (sentence_groups (sentences_of t)) = sentences_of t
   \<and> int (length (section_blocks t)) =
       max 0 (\<lceil>real (length (sentences_of t)) / 4\<rceil> - 1)
   \<and> create_blog_outline t u =
       ''# Video Transcript Analysis and Outline'' @ [NL, NL] @
       ''**Source Video:** '' @ u @ [NL, NL] @
       ''## Introduction'' @ [NL, NL] @
       (case paragraphs_of (sentences_of t) of
          [] \<Rightarrow> ''No transcript content available.'' | p # ps \<Rightarrow> p) @ [NL, NL] @
       ''## Main Content Points'' @ [NL, NL] @
       concat (map (\<lambda>i. ''### Section '' @ string_of_nat i @ [NL, NL] @
                      paragraphs_of (sentences_of t) ! i @ [NL, NL])
                 [1..<Suc (nat (max 0 (\<lceil>real (length (sentences_of t)) / 4\<rceil> - 1)))]) @
       ''## Key Takeaways'' @ [NL, NL] @
       ''Based on the transcript analysis, the main points discussed include:'' @ [NL, NL] @
       concat (bullets t) @
       [NL] @ ''## Conclusion'' @ [NL, NL] @
       ''This video covers various topics as outlined above. The transcript provides insights into the speaker's main points and discussion themes.'' @ [NL, NL] @
       ''---'' @ [NL, NL] @
       ''*Note: This outline was automatically generated from the video transcript. Some context and nuances may be lost in the automated analysis.*'' @ [NL]"
proof -
  have count: "int (length (section_blocks t)) =
      max 0 (\<lceil>real (length (sentences_of t)) / 4\<rceil> - 1)"
    unfolding ceiling_quarter section_blocks_length by simp
  have document: "create_blog_outline t u =
       ''# Video Transcript Analysis and Outline'' @ [NL, NL] @
       ''**Source Video:** '' @ u @ [NL, NL] @
       ''## Introduction'' @ [NL, NL] @
       (case paragraphs_of (sentences_of t) of
          [] \<Rightarrow> ''No transcript content available.'' | p # ps \<Rightarrow> p) @ [NL, NL] @
       ''## Main Content Points'' @ [NL, NL] @
       concat (map (\<lambda>i. ''### Section '' @ string_of_nat i @ [NL, NL] @
                      paragraphs_of (sentences_of t) ! i @ [NL, NL])
                 [1..<Suc (nat (max 0 (\<lceil>real (length (sentences_of t)) / 4\<rceil> - 1)))]) @
       ''## Key Takeaways'' @ [NL, NL] @
       ''Based on the transcript analysis, the main points discussed include:'' @ [NL, NL] @
       concat (bullets t) @
       [NL] @ ''## Conclusion'' @ [NL, NL] @
       ''This video covers various topics as outlined above. The transcript provides insights into the speaker's main points and discussion themes.'' @ [NL, NL] @
       ''---'' @ [NL, NL] @
       ''*Note: This outline was automatically generated from the video transcript. Some context and nuances may be lost in the automated analysis.*'' @ [NL]"
    unfolding create_blog_outline_def outline_head_def introduction_def takeaways_head_def
      conclusion_def section_blocks_nth [of t]
    by (simp only: append_assoc)
  from count document show ?thesis
    using sentence_groups_sizes [of "sentences_of t"]
      paragraphs_of_groups [of "sentences_of t"]
      sentence_groups_concat [of "sentences_of t"]
    by blast
qed

theorem paragraph_groups_bounds_witness:
  "[''I''] \<in> set (sentence_groups (sentences_of ''A. B. C. D. E. F. G. H. I''))
   \<and> 1 \<le> length [''I''] \<and> length [''I''] \<le> 4
   \<and> length (sentences_of ''A. B. C. D. E. F. G. H. I'') = 9
   \<and> create_blog_outline ''A. B. C. D. E. F. G. H. I'' ''https://youtu.be/abc'' =
       ''# Video Transcript Analysis and Outline'' @ [NL, NL] @
       ''**Source Video:** https://youtu.be/abc'' @ [NL, NL] @
       ''## Introduction'' @ [NL, NL] @
       ''A B C D'' @ [NL, NL] @
       ''## Main Content Points'' @ [NL, NL] @
       ''### Section 1'' @ [NL, NL] @
       ''E F G H'' @ [NL, NL] @
       ''### Section 2'' @ [NL, NL] @
       ''I'' @ [NL, NL] @
       ''## Key Takeaways'' @ [NL, NL] @
       ''Based on the transcript analysis, the main points discussed include:'' @ [NL, NL] @
       [NL] @ ''## Conclusion'' @ [NL, NL] @
       ''This video covers various topics as outlined above. The transcript provides insights into the speaker's main points and discussion themes.'' @ [NL, NL] @
       ''---'' @ [NL, NL] @
       ''*Note: This outline was automatically generated from the video transcript. Some context and nuances may be lost in the automated analysis.*'' @ [NL]"
proof -
  let ?t = "''A. B. C. D. E. F. G. H. I''"
  have groups: "sentence_groups (sentences_of ?t) =
      [[''A'', ''B'', ''C'', ''D''], [''E'', ''F'', ''G'', ''H''], [''I'']]"
    by code_simp
  have len: "length (sentences_of ?t) = 9"
    by code_simp
  have paras: "paragraphs_of (sentences_of ?t) = [''A B C D'', ''E F G H'', ''I'']"
    by code_simp
  have no_bullets: "bullets ?t = []"
    by code_simp
  have indices: "[1..<Suc (nat (max 0 (\<lceil>real (9::nat) / 4\<rceil> - 1)))] = [1, 2]"
    unfolding section_count by code_simp
  have numbers: "string_of_nat (Suc 0) = ''1''" "string_of_nat 2 = ''2''"
    by code_simp+
  have mem: "[''I''] \<in> set (sentence_groups (sentences_of ?t))"
    by (simp add: groups)
  from paragraph_groups_bounds [of ?t "''https://youtu.be/abc''"]
  have all: "\<forall>g\<in>set (sentence_groups (sentences_of ?t)). 1 \<le> length g \<and> length g \<le> 4"
    and document: "create_blog_outline ?t ''https://youtu.be/abc'' =
       ''# Video Transcript Analysis and Outline'' @ [NL, NL] @
       ''**Source Video:** '' @ ''https://youtu.be/abc'' @ [NL, NL] @
       ''## Introduction'' @ [NL, NL] @
       (case paragraphs_of (sentences_of ?t) of
          [] \<Rightarrow> ''No transcript content available.'' | p # ps \<Rightarrow> p) @ [NL, NL] @
       ''## Main Content Points'' @ [NL, NL] @
       concat (map (\<lambda>i. ''### Section '' @ string_of_nat i @ [NL, NL] @
                      paragraphs_of (sentences_of ?t) ! i @ [NL, NL])
                 [1..<Suc (nat (max 0 (\<lceil>real (length (sentences_of ?t)) / 4\<rceil> - 1)))]) @
       ''## Key Takeaways'' @ [NL, NL] @
       ''Based on the transcript analysis, the main points discussed include:'' @ [NL, NL] @
       concat (bullets ?t) @
       [NL] @ ''## Conclusion'' @ [NL, NL] @
       ''This video covers various topics as outlined above. The transcript provides insights into the speaker's main points and discussion themes.'' @ [NL, NL] @
       ''---'' @ [NL, NL] @
       ''*Note: This outline was automatically generated from the video transcript. Some context and nuances may be lost in the automated analysis.*'' @ [NL]"
    by blast+
  from all mem have sizes: "1 \<le> length [''I''] \<and> length [''I''] \<le> 4"
    by blast
  have "create_blog_outline ?t ''https://youtu.be/abc'' =
       ''# Video Transcript Analysis and Outline'' @ [NL, NL] @
       ''**Source Video:** https://youtu.be/abc'' @ [NL, NL] @
       ''## Introduction'' @ [NL, NL] @
       ''A B C D'' @ [NL, NL] @
       ''## Main Content Points'' @ [NL, NL] @
       ''### Section 1'' @ [NL, NL] @
       ''E F G H'' @ [NL, NL] @
       ''### Section 2'' @ [NL, NL] @
       ''I'' @ [NL, NL] @
       ''## Key Takeaways'' @ [NL, NL] @
       ''Based on the transcript analysis, the main points discussed include:'' @ [NL, NL] @
       [NL] @ ''## Conclusion'' @ [NL, NL] @
       ''This video covers various topics as outlined above. The transcript provides insights into the speaker's main points and discussion themes.'' @ [NL, NL] @
       ''---'' @ [NL, NL] @
       ''*Note: This outline was automatically generated from the video transcript. Some context and nuances may be lost in the automated analysis.*'' @ [NL]"
    unfolding document len indices paras no_bullets
    by (simp add: numbers)
  with mem sizes len show ?thesis by blast
qed

subsection \<open>A transcript without sentences\<close>

text \<open>No paragraph means no sentence, and then every character of the transcript is
  whitespace or a terminator, so that the transcript has no word either.\<close>

lemma paragraphs_of_Nil_iff: "paragraphs_of ss = [] \<longleftrightarrow> ss = []"
proof -
  have "length (paragraphs_of ss) = (length ss + 3) div 4"
    by (simp add: paragraphs_of_groups sentence_groups_length)
  then have "length (paragraphs_of ss) = 0 \<longleftrightarrow> length ss = 0"
    by presburger
  then show ?thesis by simp
qed

lemma strip_Nil_iff: "strip s = [] \<longleftrightarrow> (\<forall>c\<in>set s. is_space c)"
proof
  assume "strip s = []"
  then have all: "\<forall>c\<in>set (dropWhile is_space s). is_space c"
    by (simp add: strip_def dropWhile_eq_Nil_conv)
  have "dropWhile is_space s = []"
  proof (rule ccontr)
    assume "dropWhile is_space s \<noteq> []"
    then have "\<not> is_space (hd (dropWhile is_space s))"
      and "hd (dropWhile is_space s) \<in> set (dropWhile is_space s)"
      by (simp_all add: hd_dropWhile)
    with all show False by blast
  qed
  then show "\<forall>c\<in>set s. is_space c"
    by (simp add: dropWhile_eq_Nil_conv)
next
  assume "\<forall>c\<in>set s. is_space c"
  then have "dropWhile is_space s = []"
    by (simp add: dropWhile_eq_Nil_conv)
  then show "strip s = []"
    unfolding strip_def by (simp only: rev.simps dropWhile.simps)
qed

lemma re_split_chars:
  "c \<in> set s \<Longrightarrow> is_terminator c \<or> (\<exists>p\<in>set (re_split s). c \<in> set p)"
proof (induction s rule: re_split.induct)
  case (1 s)
  let ?piece = "takeWhile (\<lambda>c. \<not> is_terminator c) s"
  let ?rest = "dropWhile (\<lambda>c. \<not> is_terminator c) s"
  let ?run = "takeWhile is_terminator ?rest"
  let ?next = "dropWhile is_terminator ?rest"
  have "s = ?piece @ ?run @ ?next" by simp
  then have "set s = set ?piece \<union> set ?run \<union> set ?next"
    by (metis Un_assoc set_append)
  with "1.prems" consider "c \<in> set ?piece" | "c \<in> set ?run" | "c \<in> set ?next"
    by blast
  then show ?case
  proof cases
    case 1
    then show ?thesis
      by (subst re_split.simps) (simp add: Let_def)
  next
    case 2
    then have "is_terminator c" by (rule set_takeWhileD [THEN conjunct2])
    then show ?thesis by simp
  next
    case 3
    have rest: "?rest \<noteq> []"
    proof
      assume empty: "?rest = []"
      from 3 show False unfolding empty by simp
    qed
    from "1.IH" [OF refl refl rest 3] rest show ?thesis
      by (subst re_split.simps) (auto simp: Let_def)
  qed
qed

lemma sentences_of_Nil:
  assumes "sentences_of t = []" and "c \<in> set t"
  shows "is_space c \<or> is_terminator c"
proof -
  from assms(1) have blank: "\<forall>p\<in>set (re_split t). \<forall>c\<in>set p. is_space c"
    by (simp add: sentences_of_def filter_empty_conv strip_Nil_iff)
  from re_split_chars [OF assms(2)] blank show ?thesis by blast
qed

lemma blank_not_word:
  "is_space c \<or> is_terminator c \<Longrightarrow> \<not> is_word_char (lower_char c)"
proof -
  have "list_all (\<lambda>c. \<not> is_word_char (lower_char c))
      ([CHR 0x09, CHR 0x0A, CHR 0x0B, CHR 0x0C, CHR 0x0D, CHR 0x1C, CHR 0x1D, CHR 0x1E,
        CHR 0x1F, CHR 0x20, CHR 0x85, CHR 0xA0] @ ''.!?'')"
    by code_simp
  then show "is_space c \<or> is_terminator c \<Longrightarrow> \<not> is_word_char (lower_char c)"
    unfolding is_space_def is_terminator_def list_all_iff by auto
qed

lemma find_words_Nil: "\<forall>c\<in>set s. \<not> is_word_char c \<Longrightarrow> find_words s = []"
  by (subst find_words.simps) (simp add: dropWhile_eq_Nil_conv)

lemma words_of_no_sentences:
  assumes "sentences_of t = []"
  shows "words_of t = []"
proof -
  have "\<not> is_word_char (lower_char c)" if "c \<in> set t" for c
    using sentences_of_Nil [OF assms that] by (rule blank_not_word)
  then have "\<forall>c\<in>set (map lower_char t). \<not> is_word_char c"
    by simp
  then show ?thesis
    unfolding words_of_def lower_def by (rule find_words_Nil)
qed

lemma bullets_no_words: "words_of t = [] \<Longrightarrow> bullets t = []"
  by (simp add: bullets_def takeaways_def top_words_def)

lemma introduction_Nil: "introduction [] = ''No transcript content available.''"
  by (simp add: introduction_def)

text \<open>
  C5: when the transcript yields no paragraph, as the empty string does, the document
  is one fixed text around the source reference. Its Introduction section, between the
  headings \<^verbatim>\<open>## Introduction\<close> and \<^verbatim>\<open>## Main Content Points\<close>, holds the literal
  \<^verbatim>\<open>No transcript content available.\<close>; the heading \<^verbatim>\<open>## Key Takeaways\<close> follows
  \<^verbatim>\<open>## Main Content Points\<close> at once, with no \<^verbatim>\<open>### Section\<close> block between them, and
  the text \<^verbatim>\<open>### Section\<close> occurs nowhere after the source reference.
\<close>

theorem create_blog_outline_no_paragraphs:
  "(let body =
      [NL, NL] @
      ''## Introduction'' @ [NL, NL] @
      ''No transcript content available.'' @ [NL, NL] @
      ''## Main Content Points'' @ [NL, NL] @
      ''## Key Takeaways'' @ [NL, NL] @
      ''Based on the transcript analysis, the main points discussed include:'' @ [NL, NL] @
      [NL] @ ''## Conclusion'' @ [NL, NL] @
      ''This video covers various topics as outlined above. The transcript provides insights into the speaker's main points and discussion themes.'' @ [NL, NL] @
      ''---'' @ [NL, NL] @
      ''*Note: This outline was automatically generated from the video transcript. Some context and nuances may be lost in the automated analysis.*'' @ [NL]
    in (paragraphs_of (sentences_of t) = [] \<longrightarrow>
          create_blog_outline t u =
            ''# Video Transcript Analysis and Outline'' @ [NL, NL] @
            ''**Source Video:** '' @ u @ body)
       \<and> \<not> contains ''### Section'' body
       \<and> paragraphs_of (sentences_of []) = [])"
proof -
  have document: "create_blog_outline t u =
      ''# Video Transcript Analysis and Outline'' @ [NL, NL] @
      ''**Source Video:** '' @ u @
      [NL, NL] @
      ''## Introduction'' @ [NL, NL] @
      ''No transcript content available.'' @ [NL, NL] @
      ''## Main Content Points'' @ [NL, NL] @
      ''## Key Takeaways'' @ [NL, NL] @
      ''Based on the transcript analysis, the main points discussed include:'' @ [NL, NL] @
      [NL] @ ''## Conclusion'' @ [NL, NL] @
      ''This video covers various topics as outlined above. The transcript provides insights into the speaker's main points and discussion themes.'' @ [NL, NL] @
      ''---'' @ [NL, NL] @
      ''*Note: This outline was automatically generated from the video transcript. Some context and nuances may be lost in the automated analysis.*'' @ [NL]"
    if none: "paragraphs_of (sentences_of t) = []"
  proof -
    from none have "sentences_of t = []"
      by (simp only: paragraphs_of_Nil_iff)
    then have "bullets t = []"
      by (intro bullets_no_words words_of_no_sentences)
    moreover from none have "section_blocks t = []"
      by (simp add: section_blocks_def)
    ultimately show ?thesis
      unfolding create_blog_outline_def none introduction_Nil outline_head_def
        takeaways_head_def conclusion_def
      by (simp only: concat.simps append_Nil append_assoc)
  qed
  have no_block: "\<not> contains ''### Section''
     ([NL, NL] @
      ''## Introduction'' @ [NL, NL] @
      ''No transcript content available.'' @ [NL, NL] @
      ''## Main Content Points'' @ [NL, NL] @
      ''## Key Takeaways'' @ [NL, NL] @
      ''Based on the transcript analysis, the main points discussed include:'' @ [NL, NL] @
      [NL] @ ''## Conclusion'' @ [NL, NL] @
      ''This video covers various topics as outlined above. The transcript provides insights into the speaker's main points and discussion themes.'' @ [NL, NL] @
      ''---'' @ [NL, NL] @
      ''*Note: This outline was automatically generated from the video transcript. Some context and nuances may be lost in the automated analysis.*'' @ [NL])"
    by code_simp
  have empty: "paragraphs_of (sentences_of []) = []"
    by code_simp
  from document no_block empty show ?thesis
    unfolding Let_def by blast
qed

theorem create_blog_outline_no_paragraphs_witness:
  "paragraphs_of (sentences_of ''.. !?'') = []
   \<and> create_blog_outline ''.. !?'' ''https://youtu.be/abc'' =
       ''# Video Transcript Analysis and Outline'' @ [NL, NL] @
       ''**Source Video:** https://youtu.be/abc'' @ [NL, NL] @
       ''## Introduction'' @ [NL, NL] @
       ''No transcript content available.'' @ [NL, NL] @
       ''## Main Content Points'' @ [NL, NL] @
       ''## Key Takeaways'' @ [NL, NL] @
       ''Based on the transcript analysis, the main points discussed include:'' @ [NL, NL] @
       [NL] @ ''## Conclusion'' @ [NL, NL] @
       ''This video covers various topics as outlined above. The transcript provides insights into the speaker's main points and discussion themes.'' @ [NL, NL] @
       ''---'' @ [NL, NL] @
       ''*Note: This outline was automatically generated from the video transcript. Some context and nuances may be lost in the automated analysis.*'' @ [NL]"
proof -
  have none: "paragraphs_of (sentences_of ''.. !?'') = []"
    by code_simp
  from create_blog_outline_no_paragraphs [of "''.. !?''" "''https://youtu.be/abc''"] none
  have "create_blog_outline ''.. !?'' ''https://youtu.be/abc'' =
      ''# Video Transcript Analysis and Outline'' @ [NL, NL] @
      ''**Source Video:** '' @ ''https://youtu.be/abc'' @
      [NL, NL] @
      ''## Introduction'' @ [NL, NL] @
      ''No transcript content available.'' @ [NL, NL] @
      ''## Main Content Points'' @ [NL, NL] @
      ''## Key Takeaways'' @ [NL, NL] @
      ''Based on the transcript analysis, the main points discussed include:'' @ [NL, NL] @
      [NL] @ ''## Conclusion'' @ [NL, NL] @
      ''This video covers various topics as outlined above. The transcript provides insights into the speaker's main points and discussion themes.'' @ [NL, NL] @
      ''---'' @ [NL, NL] @
      ''*Note: This outline was automatically generated from the video transcript. Some context and nuances may be lost in the automated analysis.*'' @ [NL]"
    unfolding Let_def by blast
  then have "create_blog_outline ''.. !?'' ''https://youtu.be/abc'' =
       ''# Video Transcript Analysis and Outline'' @ [NL, NL] @
       ''**Source Video:** https://youtu.be/abc'' @ [NL, NL] @
       ''## Introduction'' @ [NL, NL] @
       ''No transcript content available.'' @ [NL, NL] @
       ''## Main Content Points'' @ [NL, NL] @
       ''## Key Takeaways'' @ [NL, NL] @
       ''Based on the transcript analysis, the main points discussed include:'' @ [NL, NL] @
       [NL] @ ''## Conclusion'' @ [NL, NL] @
       ''This video covers various topics as outlined above. The transcript provides insights into the speaker's main points and discussion themes.'' @ [NL, NL] @
       ''---'' @ [NL, NL] @
       ''*Note: This outline was automatically generated from the video transcript. Some context and nuances may be lost in the automated analysis.*'' @ [NL]"
    by simp
  with none show ?thesis by blast
qed

subsection \<open>The word-frequency pass\<close>

lemma first_index_less: "x \<in> set xs \<Longrightarrow> first_index xs x < length xs"
  by (induction xs) auto

lemma first_index_append: "x \<in> set xs \<Longrightarrow> first_index (xs @ ys) x = first_index xs x"
  by (induction xs) auto

lemma first_index_new: "x \<notin> set xs \<Longrightarrow> first_index (xs @ [x]) x = length xs"
  by (induction xs) auto

lemma count_words_append: "count_words (xs @ ys) d = count_words ys (count_words xs d)"
  by (induction xs arbitrary: d) simp_all

lemma count_words_snoc:
  "count_words (ws @ [w]) d =
   (if length w > 4
    then dict_set (count_words ws d) w (dict_get (count_words ws d) w 0 + 1)
    else count_words ws d)"
  by (simp add: count_words_append)

lemma keys_dict_set:
  "map fst (dict_set d k v) = (if k \<in> fst ` set d then map fst d else map fst d @ [k])"
proof (induction d)
  case Nil
  show ?case by simp
next
  case (Cons x d)
  obtain k' v' where x: "x = (k', v')" by (cases x)
  show ?case
  proof (cases "k' = k")
    case True
    then show ?thesis by (simp add: x)
  next
    case False
    then show ?thesis using Cons.IH by (simp add: x)
  qed
qed

lemma set_keys_dict_set: "fst ` set (dict_set d k v) = insert k (fst ` set d)"
proof -
  have "set (map fst (dict_set d k v)) = insert k (set (map fst d))"
    unfolding keys_dict_set by auto
  then show ?thesis by simp
qed

lemma map_of_dict_set: "map_of (dict_set d k v) = (map_of d)(k \<mapsto> v)"
  by (induction d) auto

text \<open>The dictionary after the loop: its keys are the words longer than 4 characters, in
  the order in which they first occur, each with the number of its occurrences.\<close>

lemma count_words_keys:
  "fst ` set (count_words ws []) = {w \<in> set ws. length w > 4}"
proof (induction ws rule: rev_induct)
  case Nil
  show ?case by simp
next
  case (snoc w ws)
  show ?case
  proof (cases "length w > 4")
    case True
    then show ?thesis
      using snoc.IH by (auto simp: count_words_snoc set_keys_dict_set)
  next
    case False
    then show ?thesis
      using snoc.IH by (auto simp: count_words_snoc)
  qed
qed

lemma count_words_order:
  "sorted_wrt (\<lambda>a b. first_index ws a < first_index ws b) (map fst (count_words ws []))"
proof (induction ws rule: rev_induct)
  case Nil
  show ?case by simp
next
  case (snoc w ws)
  let ?d = "count_words ws []"
  have keys: "fst ` set ?d \<subseteq> set ws"
    using count_words_keys [of ws] by auto
  have old: "sorted_wrt (\<lambda>a b. first_index (ws @ [w]) a < first_index (ws @ [w]) b) (map fst ?d)"
    using snoc.IH keys
    by (auto simp: first_index_append subsetD elim!: sorted_wrt_mono_rel [rotated])
  show ?case
  proof (cases "length w > 4 \<and> w \<notin> fst ` set ?d")
    case False
    then show ?thesis
      using old by (auto simp: count_words_snoc keys_dict_set)
  next
    case True
    then have "w \<notin> set ws"
      using count_words_keys [of ws] by auto
    then have "first_index (ws @ [w]) w = length ws"
      by (rule first_index_new)
    moreover have "first_index (ws @ [w]) a < length ws" if "a \<in> fst ` set ?d" for a
      using that keys by (auto simp: first_index_append first_index_less)
    ultimately have "sorted_wrt (\<lambda>a b. first_index (ws @ [w]) a < first_index (ws @ [w]) b)
        (map fst ?d @ [w])"
      using old by (simp add: sorted_wrt_append)
    with True show ?thesis
      by (simp add: count_words_snoc keys_dict_set)
  qed
qed

lemma count_words_distinct: "distinct (map fst (count_words ws []))"
proof -
  have "sorted_wrt (\<lambda>a b. a \<noteq> b) (map fst (count_words ws []))"
    using count_words_order [of ws] by (rule sorted_wrt_mono_rel [rotated]) auto
  then show ?thesis by (simp add: distinct_conv_nth sorted_wrt_iff_nth_less) (metis nat_neq_iff)
qed

lemma count_words_map_of:
  "map_of (count_words ws []) w =
   (if w \<in> set ws \<and> length w > 4 then Some (count_list ws w) else None)"
proof (induction ws rule: rev_induct)
  case Nil
  show ?case by simp
next
  case (snoc x ws)
  then show ?case
    by (auto simp: count_words_snoc map_of_dict_set dict_get_def)
qed

lemma count_words_counts:
  assumes "(w, c) \<in> set (count_words ws [])"
  shows "c = count_list ws w \<and> length w > 4 \<and> w \<in> set ws"
proof -
  from assms count_words_distinct [of ws] have "map_of (count_words ws []) w = Some c"
    by simp
  then show ?thesis
    by (simp add: count_words_map_of split: if_splits)
qed

text \<open>
  The sort is descending by count and stable: where the input is in the order \<open>P\<close> (each
  item before the later ones), the output has the larger counts first and, among equal
  counts, keeps \<open>P\<close>.
\<close>

lemma set_insort_desc: "set (insort_desc x ys) = insert x (set ys)"
  by (induction ys) auto

lemma set_sorted_desc: "set (sorted_desc xs) = set xs"
  by (induction xs) (simp_all add: set_insort_desc)

lemma insort_desc_sorted:
  assumes "sorted_wrt (\<lambda>a b. snd b < snd a \<or> (snd b = snd a \<and> P a b)) ys"
    and "\<forall>y\<in>set ys. P x y"
  shows "sorted_wrt (\<lambda>a b. snd b < snd a \<or> (snd b = snd a \<and> P a b)) (insort_desc x ys)"
  using assms
proof (induction ys)
  case Nil
  show ?case by simp
next
  case (Cons y ys)
  show ?case
  proof (cases "snd y \<le> snd x")
    case True
    have "snd z < snd x \<or> (snd z = snd x \<and> P x z)" if "z \<in> set (y # ys)" for z
    proof -
      have "snd z \<le> snd y" using that Cons.prems(1) by auto
      with True have "snd z \<le> snd x" by simp
      moreover have "P x z" using that Cons.prems(2) by blast
      ultimately show ?thesis by auto
    qed
    with Cons.prems(1) True show ?thesis by simp
  next
    case False
    have "sorted_wrt (\<lambda>a b. snd b < snd a \<or> (snd b = snd a \<and> P a b)) (insort_desc x ys)"
      using Cons.prems by (intro Cons.IH) simp_all
    moreover have "snd z < snd y \<or> (snd z = snd y \<and> P y z)"
      if "z \<in> set (insort_desc x ys)" for z
      using that False Cons.prems(1) by (auto simp: set_insort_desc)
    ultimately show ?thesis using False by simp
  qed
qed

lemma sorted_desc_sorted:
  "sorted_wrt P xs \<Longrightarrow>
   sorted_wrt (\<lambda>a b. snd b < snd a \<or> (snd b = snd a \<and> P a b)) (sorted_desc xs)"
proof (induction xs)
  case Nil
  show ?case by simp
next
  case (Cons x xs)
  then show ?case
    by (simp add: insort_desc_sorted set_sorted_desc)
qed

lemma takeaways_subset:
  "set (takeaways t) \<subseteq> {x \<in> set (count_words (words_of t) []). snd x > 2}"
  unfolding takeaways_def top_words_def
  using set_take_subset [of 10 "sorted_desc (count_words (words_of t) [])"]
  by (auto simp: set_sorted_desc)

text \<open>
  C10: the bullets are rendered, in order, from the pairs of \<open>takeaways\<close>. Along that list
  the counts never increase, and of two words with the same count the one that occurs
  first in the transcript (in the list of its lowercase words) comes first. Each pair is a
  word longer than 4 characters with the number of its occurrences, which exceeds 2, and
  at most 10 pairs are listed.
\<close>

theorem takeaways_order:
  "bullets t = map bullet (takeaways t)
   \<and> sorted_wrt (\<lambda>x y. snd y < snd x \<or>
        (snd y = snd x \<and>
         first_index (words_of t) (fst x) < first_index (words_of t) (fst y)))
       (takeaways t)
   \<and> (\<forall>x\<in>set (takeaways t).
        snd x = count_list (words_of t) (fst x) \<and> 2 < snd x \<and> 4 < length (fst x))
   \<and> length (takeaways t) \<le> 10"
proof -
  let ?ws = "words_of t"
  let ?P = "\<lambda>x y. first_index ?ws (fst x) < first_index ?ws (fst y)"
  have "sorted_wrt ?P (count_words ?ws [])"
    using count_words_order [of ?ws] by (simp add: sorted_wrt_map)
  then have "sorted_wrt (\<lambda>x y. snd y < snd x \<or> (snd y = snd x \<and> ?P x y))
      (sorted_desc (count_words ?ws []))"
    by (rule sorted_desc_sorted)
  then have order: "sorted_wrt (\<lambda>x y. snd y < snd x \<or> (snd y = snd x \<and> ?P x y))
      (takeaways t)"
    unfolding takeaways_def top_words_def
    by (intro sorted_wrt_filter sorted_wrt_take)
  have counts: "snd x = count_list ?ws (fst x) \<and> 2 < snd x \<and> 4 < length (fst x)"
    if "x \<in> set (takeaways t)" for x
  proof -
    from that takeaways_subset [of t]
    have "(fst x, snd x) \<in> set (count_words ?ws [])" and "2 < snd x"
      by auto
    with count_words_counts [of "fst x" "snd x" ?ws] show ?thesis by simp
  qed
  have "length (takeaways t) \<le> length (top_words t)"
    unfolding takeaways_def by (rule length_filter_le)
  also have "\<dots> \<le> 10"
    unfolding top_words_def by simp
  finally have "length (takeaways t) \<le> 10" .
  with order counts show ?thesis
    unfolding bullets_def by blast
qed

theorem takeaways_order_witness:
  "takeaways ''Gamma delta gamma DELTA alpha gamma delta alpha alpha alpha'' =
     [(''alpha'', 4), (''gamma'', 3), (''delta'', 3)]
   \<and> first_index (words_of ''Gamma delta gamma DELTA alpha gamma delta alpha alpha alpha'')
       ''gamma''
     < first_index (words_of ''Gamma delta gamma DELTA alpha gamma delta alpha alpha alpha'')
       ''delta''"
proof -
  let ?t = "''Gamma delta gamma DELTA alpha gamma delta alpha alpha alpha''"
  have listed: "takeaways ?t = [(''alpha'', 4), (''gamma'', 3), (''delta'', 3)]"
    by code_simp
  from takeaways_order [of ?t]
  have "sorted_wrt (\<lambda>x y. snd y < snd x \<or>
        (snd y = snd x \<and>
         first_index (words_of ?t) (fst x) < first_index (words_of ?t) (fst y)))
       (takeaways ?t)"
    by blast
  then have "first_index (words_of ?t) ''gamma'' < first_index (words_of ?t) ''delta''"
    unfolding listed by simp
  with listed show ?thesis by blast
qed

subsection \<open>The rules of the word-frequency pass\<close>

text \<open>A word found in a string is made of characters of that string.\<close>

lemma find_words_chars: "w \<in> set (find_words s) \<Longrightarrow> set w \<subseteq> set s"
proof (induction s rule: find_words.induct)
  case (1 s)
  let ?s' = "dropWhile (\<lambda>c. \<not> is_word_char c) s"
  have unfold: "find_words s =
      (if ?s' = [] then []
       else takeWhile is_word_char ?s' # find_words (dropWhile is_word_char ?s'))"
    using find_words.simps [of s] by (simp only: Let_def)
  show ?case
  proof (cases "?s' = []")
    case True
    with unfold have "find_words s = []"
      by simp
    with "1.prems" show ?thesis by simp
  next
    case False
    with unfold have "find_words s =
        takeWhile is_word_char ?s' # find_words (dropWhile is_word_char ?s')"
      by (simp only: if_False)
    with "1.prems"
    consider "w = takeWhile is_word_char ?s'"
      | "w \<in> set (find_words (dropWhile is_word_char ?s'))"
      by (simp only: set_simps insert_iff) blast
    then show ?thesis
    proof cases
      case 1
      then show ?thesis
        by (auto dest!: set_takeWhileD set_dropWhileD)
    next
      case 2
      from "1.IH" [OF refl False 2] show ?thesis
        by (auto dest!: set_dropWhileD)
    qed
  qed
qed

text \<open>Lowering a character never gives an upper-case letter.\<close>

lemma lower_char_not_upper: "lower_char c \<notin> set upper_letters"
proof (cases "map_of (zip upper_letters lower_letters) c")
  case None
  have "length upper_letters = length lower_letters"
    by code_simp
  with None have "c \<notin> set upper_letters"
    by (simp add: map_of_zip_is_None)
  with None show ?thesis
    by (simp add: lower_char_def)
next
  case (Some d)
  then have "d \<in> set lower_letters"
    by (auto dest!: map_of_SomeD set_zip_rightD)
  moreover have "list_all (\<lambda>d. d \<notin> set upper_letters) lower_letters"
    by code_simp
  ultimately have "d \<notin> set upper_letters"
    by (simp add: list_all_iff)
  with Some show ?thesis
    by (simp add: lower_char_def)
qed

lemma words_of_lowercase:
  assumes "w \<in> set (words_of t)" and "c \<in> set w"
  shows "c \<notin> set upper_letters"
proof -
  from assms have "c \<in> set (lower t)"
    using find_words_chars [of w "lower t"] by (auto simp: words_of_def)
  then obtain c' where "c = lower_char c'"
    by (auto simp: lower_def)
  then show ?thesis
    by (simp add: lower_char_not_upper)
qed

lemma length_insort_desc: "length (insort_desc x ys) = Suc (length ys)"
  by (induction ys) simp_all

lemma length_sorted_desc: "length (sorted_desc xs) = length xs"
  by (induction xs) (simp_all add: length_insort_desc)

lemma sorted_desc_descending: "sorted_wrt (\<lambda>x y. snd y \<le> snd x) (sorted_desc xs)"
proof -
  have "sorted_wrt (\<lambda>a b. True) xs"
    by (induction xs) simp_all
  then have "sorted_wrt (\<lambda>a b. snd b < snd a \<or> (snd b = snd a \<and> True)) (sorted_desc xs)"
    by (rule sorted_desc_sorted)
  then show ?thesis
    by (rule sorted_wrt_mono_rel [rotated]) auto
qed

text \<open>What the cut after 10 entries leaves out has no larger count than what it keeps.\<close>

lemma sorted_desc_cut:
  assumes "x \<in> set xs" and "x \<notin> set (take n (sorted_desc xs))"
    and "y \<in> set (take n (sorted_desc xs))"
  shows "snd x \<le> snd y"
proof -
  let ?s = "sorted_desc xs"
  have "sorted_wrt (\<lambda>x y. snd y \<le> snd x) (take n ?s @ drop n ?s)"
    using sorted_desc_descending [of xs] by simp
  then have later: "\<forall>a\<in>set (take n ?s). \<forall>b\<in>set (drop n ?s). snd b \<le> snd a"
    by (simp only: sorted_wrt_append) blast
  from assms(1) have "x \<in> set (take n ?s @ drop n ?s)"
    by (simp add: set_sorted_desc)
  with assms(2) have "x \<in> set (drop n ?s)"
    by (simp only: set_append Un_iff) blast
  with later assms(3) show ?thesis by blast
qed

text \<open>
  C4: for the transcript \<^verbatim>\<open>"alpha alpha alpha beta beta gamma"\<close> the word-frequency pass
  emits exactly one bullet, the line \<^verbatim>\<open>- **Alpha** (mentioned 3 times)\<close>, which is all
  that stands in the document between the Key Takeaways head and the conclusion
  (\<^verbatim>\<open>alpha\<close> is counted three times and \<^verbatim>\<open>gamma\<close> once; \<^verbatim>\<open>beta\<close> has 4 characters and
  is not counted). The rules, for every transcript \<open>t\<close>:
  \<^item> a bullet is the line \<^verbatim>\<open>- **Word** (mentioned n times)\<close> of a listed pair;
  \<^item> the words are those of the lower-cased transcript, so none holds an upper-case
    letter;
  \<^item> the counted words are exactly the words longer than 4 characters, each once and
    with the number of its occurrences;
  \<^item> the top entries are at most 10 of the counted ones (all of them when there are no
    more than 10), in descending order of count, and an entry left out has no larger
    count than any entry kept;
  \<^item> of the top entries, exactly those with a count above 2 are listed, in the same
    order.

  Three transcripts show the rules at their limits: with mixed case, \<^verbatim>\<open>alpha\<close> in three
  spellings is one word counted 3 times, and \<^verbatim>\<open>gamma\<close>, counted exactly 2 times, is
  a top entry but gets no bullet; with eleven words counted 3 times or more, the one
  counted 4 times comes first though it is met last, and the last of the others is cut.
\<close>

theorem word_frequency_pass:
  "bullets ''alpha alpha alpha beta beta gamma'' = [''- **Alpha** (mentioned 3 times)'' @ [NL]]
   \<and> count_words (words_of ''alpha alpha alpha beta beta gamma'') [] = [(''alpha'', 3), (''gamma'', 1)]
   \<and> create_blog_outline ''alpha alpha alpha beta beta gamma'' u =
       ''# Video Transcript Analysis and Outline'' @ [NL, NL] @
       ''**Source Video:** '' @ u @ [NL, NL] @
       ''## Introduction'' @ [NL, NL] @
       ''alpha alpha alpha beta beta gamma'' @ [NL, NL] @
       ''## Main Content Points'' @ [NL, NL] @
       ''## Key Takeaways'' @ [NL, NL] @
       ''Based on the transcript analysis, the main points discussed include:'' @ [NL, NL] @
       ''- **Alpha** (mentioned 3 times)'' @ [NL] @
       [NL] @ ''## Conclusion'' @ [NL, NL] @
       ''This video covers various topics as outlined above. The transcript provides insights into the speaker's main points and discussion themes.'' @ [NL, NL] @
       ''---'' @ [NL, NL] @
       ''*Note: This outline was automatically generated from the video transcript. Some context and nuances may be lost in the automated analysis.*'' @ [NL]
   \<and> bullets t =
       map (\<lambda>x. ''- **'' @ capitalize (fst x) @ ''** (mentioned '' @
                 string_of_nat (snd x) @ '' times)'' @ [NL]) (takeaways t)
   \<and> words_of t = find_words (lower t)
   \<and> (\<forall>w\<in>set (words_of t). \<forall>c\<in>set w. c \<notin> set upper_letters)
   \<and> fst ` set (count_words (words_of t) []) = {w \<in> set (words_of t). 4 < length w}
   \<and> distinct (map fst (count_words (words_of t) []))
   \<and> (\<forall>x\<in>set (count_words (words_of t) []). snd x = count_list (words_of t) (fst x))
   \<and> set (top_words t) \<subseteq> set (count_words (words_of t) [])
   \<and> length (top_words t) = min 10 (length (count_words (words_of t) []))
   \<and> sorted_wrt (\<lambda>x y. snd y \<le> snd x) (top_words t)
   \<and> (\<forall>x\<in>set (count_words (words_of t) []). x \<notin> set (top_words t) \<longrightarrow>
         (\<forall>y\<in>set (top_words t). snd x \<le> snd y))
   \<and> takeaways t = filter (\<lambda>x. 2 < snd x) (top_words t)
   \<and> top_words ''Alpha ALPHA alpha gamma GAMMA'' = [(''alpha'', 3), (''gamma'', 2)]
   \<and> takeaways ''Alpha ALPHA alpha gamma GAMMA'' = [(''alpha'', 3)]
   \<and> count_words (words_of ''aaaaa bbbbb ccccc ddddd eeeee fffff ggggg hhhhh iiiii jjjjj kkkkk aaaaa bbbbb ccccc ddddd eeeee fffff ggggg hhhhh iiiii jjjjj kkkkk aaaaa bbbbb ccccc ddddd eeeee fffff ggggg hhhhh iiiii jjjjj kkkkk kkkkk'') [] =
       [(''aaaaa'', 3), (''bbbbb'', 3), (''ccccc'', 3), (''ddddd'', 3), (''eeeee'', 3), (''fffff'', 3), (''ggggg'', 3), (''hhhhh'', 3), (''iiiii'', 3), (''jjjjj'', 3), (''kkkkk'', 4)]
   \<and> takeaways ''aaaaa bbbbb ccccc ddddd eeeee fffff ggggg hhhhh iiiii jjjjj kkkkk aaaaa bbbbb ccccc ddddd eeeee fffff ggggg hhhhh iiiii jjjjj kkkkk aaaaa bbbbb ccccc ddddd eeeee fffff ggggg hhhhh iiiii jjjjj kkkkk kkkkk'' =
       [(''kkkkk'', 4), (''aaaaa'', 3), (''bbbbb'', 3), (''ccccc'', 3), (''ddddd'', 3), (''eeeee'', 3), (''fffff'', 3), (''ggggg'', 3), (''hhhhh'', 3), (''iiiii'', 3)]"
proof -
  let ?d = "count_words (words_of t) []"
  have example: "bullets ''alpha alpha alpha beta beta gamma'' = [''- **Alpha** (mentioned 3 times)'' @ [NL]]"
    by code_simp
  have counted: "count_words (words_of ''alpha alpha alpha beta beta gamma'') [] = [(''alpha'', 3), (''gamma'', 1)]"
    by code_simp
  have single: "paragraphs_of (sentences_of ''alpha alpha alpha beta beta gamma'') = [''alpha alpha alpha beta beta gamma'']"
    by code_simp
  have no_sections: "section_blocks ''alpha alpha alpha beta beta gamma'' = []"
    by code_simp
  have document: "create_blog_outline ''alpha alpha alpha beta beta gamma'' u =
       ''# Video Transcript Analysis and Outline'' @ [NL, NL] @
       ''**Source Video:** '' @ u @ [NL, NL] @
       ''## Introduction'' @ [NL, NL] @
       ''alpha alpha alpha beta beta gamma'' @ [NL, NL] @
       ''## Main Content Points'' @ [NL, NL] @
       ''## Key Takeaways'' @ [NL, NL] @
       ''Based on the transcript analysis, the main points discussed include:'' @ [NL, NL] @
       ''- **Alpha** (mentioned 3 times)'' @ [NL] @
       [NL] @ ''## Conclusion'' @ [NL, NL] @
       ''This video covers various topics as outlined above. The transcript provides insights into the speaker's main points and discussion themes.'' @ [NL, NL] @
       ''---'' @ [NL, NL] @
       ''*Note: This outline was automatically generated from the video transcript. Some context and nuances may be lost in the automated analysis.*'' @ [NL]"
    unfolding create_blog_outline_def single no_sections example outline_head_def
      introduction_def takeaways_head_def conclusion_def
    by (simp only: list.case concat.simps append_Nil append_Nil2 append_assoc)
  have lines: "bullets t =
       map (\<lambda>x. ''- **'' @ capitalize (fst x) @ ''** (mentioned '' @
                 string_of_nat (snd x) @ '' times)'' @ [NL]) (takeaways t)"
    unfolding bullets_def bullet_def ..
  have lowered: "words_of t = find_words (lower t)"
    by (rule words_of_def)
  have lowercase: "\<forall>w\<in>set (words_of t). \<forall>c\<in>set w. c \<notin> set upper_letters"
    using words_of_lowercase by blast
  have keys: "fst ` set ?d = {w \<in> set (words_of t). 4 < length w}"
    by (rule count_words_keys)
  have once: "distinct (map fst ?d)"
    by (rule count_words_distinct)
  have counts: "\<forall>x\<in>set ?d. snd x = count_list (words_of t) (fst x)"
  proof
    fix x assume "x \<in> set ?d"
    then have "(fst x, snd x) \<in> set ?d" by simp
    then show "snd x = count_list (words_of t) (fst x)"
      using count_words_counts [of "fst x" "snd x" "words_of t"] by blast
  qed
  have subset: "set (top_words t) \<subseteq> set ?d"
    unfolding top_words_def using set_take_subset [of 10 "sorted_desc ?d"]
    by (simp only: set_sorted_desc)
  have cut: "length (top_words t) = min 10 (length ?d)"
    unfolding top_words_def by (simp add: length_sorted_desc min.commute)
  have descending: "sorted_wrt (\<lambda>x y. snd y \<le> snd x) (top_words t)"
    unfolding top_words_def by (intro sorted_wrt_take sorted_desc_descending)
  have rest: "\<forall>x\<in>set ?d. x \<notin> set (top_words t) \<longrightarrow>
         (\<forall>y\<in>set (top_words t). snd x \<le> snd y)"
    unfolding top_words_def using sorted_desc_cut by blast
  have threshold: "takeaways t = filter (\<lambda>x. 2 < snd x) (top_words t)"
    unfolding takeaways_def by (rule filter_cong) auto
  have mixed_top: "top_words ''Alpha ALPHA alpha gamma GAMMA'' = [(''alpha'', 3), (''gamma'', 2)]"
    by code_simp
  have mixed: "takeaways ''Alpha ALPHA alpha gamma GAMMA'' = [(''alpha'', 3)]"
    by code_simp
  have eleven: "count_words (words_of ''aaaaa bbbbb ccccc ddddd eeeee fffff ggggg hhhhh iiiii jjjjj kkkkk aaaaa bbbbb ccccc ddddd eeeee fffff ggggg hhhhh iiiii jjjjj kkkkk aaaaa bbbbb ccccc ddddd eeeee fffff ggggg hhhhh iiiii jjjjj kkkkk kkkkk'') [] =
       [(''aaaaa'', 3), (''bbbbb'', 3), (''ccccc'', 3), (''ddddd'', 3), (''eeeee'', 3), (''fffff'', 3), (''ggggg'', 3), (''hhhhh'', 3), (''iiiii'', 3), (''jjjjj'', 3), (''kkkkk'', 4)]"
    by code_simp
  have ten: "takeaways ''aaaaa bbbbb ccccc ddddd eeeee fffff ggggg hhhhh iiiii jjjjj kkkkk aaaaa bbbbb ccccc ddddd eeeee fffff ggggg hhhhh iiiii jjjjj kkkkk aaaaa bbbbb ccccc ddddd eeeee fffff ggggg hhhhh iiiii jjjjj kkkkk kkkkk'' =
       [(''kkkkk'', 4), (''aaaaa'', 3), (''bbbbb'', 3), (''ccccc'', 3), (''ddddd'', 3), (''eeeee'', 3), (''fffff'', 3), (''ggggg'', 3), (''hhhhh'', 3), (''iiiii'', 3)]"
    by code_simp
  show ?thesis
    by (intro conjI example counted document lines lowered lowercase keys once counts
        subset cut descending rest threshold mixed_top mixed eleven ten)
qed

theorem word_frequency_pass_witness:
  "''alpha'' \<in> set (words_of ''Alpha ALPHA alpha gamma GAMMA'')
   \<and> CHR ''a'' \<notin> set upper_letters
   \<and> (''gamma'', 2) \<in> set (count_words (words_of ''Alpha ALPHA alpha gamma GAMMA'') [])
   \<and> count_list (words_of ''Alpha ALPHA alpha gamma GAMMA'') ''gamma'' = 2
   \<and> (''jjjjj'', 3) \<in> set (count_words (words_of ''aaaaa bbbbb ccccc ddddd eeeee fffff ggggg hhhhh iiiii jjjjj kkkkk aaaaa bbbbb ccccc ddddd eeeee fffff ggggg hhhhh iiiii jjjjj kkkkk aaaaa bbbbb ccccc ddddd eeeee fffff ggggg hhhhh iiiii jjjjj kkkkk kkkkk'') [])
   \<and> (''jjjjj'', 3) \<notin> set (top_words ''aaaaa bbbbb ccccc ddddd eeeee fffff ggggg hhhhh iiiii jjjjj kkkkk aaaaa bbbbb ccccc ddddd eeeee fffff ggggg hhhhh iiiii jjjjj kkkkk aaaaa bbbbb ccccc ddddd eeeee fffff ggggg hhhhh iiiii jjjjj kkkkk kkkkk'')
   \<and> (''kkkkk'', 4) \<in> set (top_words ''aaaaa bbbbb ccccc ddddd eeeee fffff ggggg hhhhh iiiii jjjjj kkkkk aaaaa bbbbb ccccc ddddd eeeee fffff ggggg hhhhh iiiii jjjjj kkkkk aaaaa bbbbb ccccc ddddd eeeee fffff ggggg hhhhh iiiii jjjjj kkkkk kkkkk'')
   \<and> snd (''jjjjj'', 3::nat) \<le> snd (''kkkkk'', 4::nat)"
proof -
  let ?t1 = "''Alpha ALPHA alpha gamma GAMMA''"
  let ?t2 = "''aaaaa bbbbb ccccc ddddd eeeee fffff ggggg hhhhh iiiii jjjjj kkkkk aaaaa bbbbb ccccc ddddd eeeee fffff ggggg hhhhh iiiii jjjjj kkkkk aaaaa bbbbb ccccc ddddd eeeee fffff ggggg hhhhh iiiii jjjjj kkkkk kkkkk''"
  have words: "words_of ?t1 = [''alpha'', ''alpha'', ''alpha'', ''gamma'', ''gamma'']"
    by code_simp
  have dict: "count_words (words_of ?t1) [] = [(''alpha'', 3), (''gamma'', 2)]"
    by code_simp
  have dict2: "count_words (words_of ?t2) [] =
       [(''aaaaa'', 3), (''bbbbb'', 3), (''ccccc'', 3), (''ddddd'', 3), (''eeeee'', 3), (''fffff'', 3), (''ggggg'', 3), (''hhhhh'', 3), (''iiiii'', 3), (''jjjjj'', 3), (''kkkkk'', 4)]"
    by code_simp
  have top2: "top_words ?t2 =
       [(''kkkkk'', 4), (''aaaaa'', 3), (''bbbbb'', 3), (''ccccc'', 3), (''ddddd'', 3), (''eeeee'', 3), (''fffff'', 3), (''ggggg'', 3), (''hhhhh'', 3), (''iiiii'', 3)]"
    by code_simp
  have word: "''alpha'' \<in> set (words_of ?t1)"
    unfolding words by simp
  have pair: "(''gamma'', 2) \<in> set (count_words (words_of ?t1) [])"
    unfolding dict by simp
  have left: "(''jjjjj'', 3) \<in> set (count_words (words_of ?t2) [])"
    unfolding dict2 by simp
  have out: "(''jjjjj'', 3) \<notin> set (top_words ?t2)"
    unfolding top2 by simp
  have kept: "(''kkkkk'', 4) \<in> set (top_words ?t2)"
    unfolding top2 by simp
  from word_frequency_pass [where t = ?t1]
  have lowercase: "\<forall>w\<in>set (words_of ?t1). \<forall>c\<in>set w. c \<notin> set upper_letters"
    and counts: "\<forall>x\<in>set (count_words (words_of ?t1) []).
      snd x = count_list (words_of ?t1) (fst x)"
    by blast+
  from word_frequency_pass [where t = ?t2]
  have rest: "\<forall>x\<in>set (count_words (words_of ?t2) []). x \<notin> set (top_words ?t2) \<longrightarrow>
         (\<forall>y\<in>set (top_words ?t2). snd x \<le> snd y)"
    by blast
  from lowercase word have "CHR ''a'' \<notin> set upper_letters"
    by fastforce
  moreover from counts pair have "count_list (words_of ?t1) ''gamma'' = 2"
    by fastforce
  moreover from rest left out kept have "snd (''jjjjj'', 3::nat) \<le> snd (''kkkkk'', 4::nat)"
    by blast
  ultimately show ?thesis
    using word pair left out kept by blast
qed

section \<open>Properties of get\_transcript and main\<close>

lemma main_video_id: "extract_video_id video_url = ''5zFUBD2rRis''"
  by code_simp

lemma main_proceeds:
  assumes "returned (get_transcript fetch ''5zFUBD2rRis'') = Some transcript"
    and "transcript \<noteq> []"
  shows "written (main fetch True) =
    Some (create_blog_outline (clean_transcript (Some transcript)) video_url)"
  using assms unfolding main_def main_video_id Let_def by simp

lemma main_stops:
  assumes "returned (get_transcript fetch ''5zFUBD2rRis'') = Some []"
  shows "written (main fetch writable) = None
    \<and> last (shown (main fetch writable)) =
        ''Could not retrieve transcript. The video may not have captions available.''"
  using assms unfolding main_def main_video_id Let_def by simp

text \<open>
  C7, as stated: whenever the fetch for the preferred language fails and the fetch for any
  language succeeds, the pipeline would proceed. It does not when the fallback transcript
  has no text: \<^verbatim>\<open>get_transcript\<close> returns the empty string, which \<^verbatim>\<open>main\<close> takes for
  a missing transcript, and the run stops with nothing written.
\<close>

theorem get_transcript_fallback_counterexample:
  "returned (get_transcript (\<lambda>video_id languages.
       if languages = None then Inr [] else Inl ''no transcript in this language'')
     ''5zFUBD2rRis'') = Some []
   \<and> calls (get_transcript (\<lambda>video_id languages.
       if languages = None then Inr [] else Inl ''no transcript in this language'')
     ''5zFUBD2rRis'') = [(''5zFUBD2rRis'', Some [''en'']), (''5zFUBD2rRis'', None)]
   \<and> written (main (\<lambda>video_id languages.
       if languages = None then Inr [] else Inl ''no transcript in this language'') True) = None
   \<and> shown (main (\<lambda>video_id languages.
       if languages = None then Inr [] else Inl ''no transcript in this language'') True) =
       [''Extracting transcript from: https://www.youtube.com/watch?v=5zFUBD2rRis'',
        ''Video ID: 5zFUBD2rRis'',
        ''Fetching transcript...'',
        ''Could not retrieve transcript. The video may not have captions available.'']"
  unfolding main_def main_video_id Let_def get_transcript_def
  by (simp add: video_url_def)

text \<open>
  C7, amended. With the caption service as an oracle: the first fetch asks for the
  language \<^verbatim>\<open>en\<close>, and when it succeeds its texts, joined by spaces, are returned and no
  other fetch is made. When it fails, one more fetch is made, with no language given; if
  that one succeeds, \<^verbatim>\<open>get_transcript\<close> returns its texts joined by spaces and prints
  nothing; if it fails too, \<^verbatim>\<open>get_transcript\<close> prints the error and returns \<^verbatim>\<open>None\<close>,
  having made these two fetches and no more. \<^verbatim>\<open>None\<close> is returned only when both fetches
  fail. In \<^verbatim>\<open>main\<close>, whose video id is \<^verbatim>\<open>5zFUBD2rRis\<close>, a fallback result with a non-empty
  text goes through cleaning and formatting and the outline is written (given that the
  output file can be written); a fallback result with an empty text stops the run.
\<close>

theorem get_transcript_fallback:
  "(fetch v (Some [''en'']) = Inr texts \<longrightarrow>
      returned (get_transcript fetch v) = Some (join_sp texts)
      \<and> calls (get_transcript fetch v) = [(v, Some [''en''])]
      \<and> printed (get_transcript fetch v) = [])
   \<and> (fetch v (Some [''en'']) = Inl e \<and> fetch v None = Inr texts \<longrightarrow>
      returned (get_transcript fetch v) = Some (join_sp texts)
      \<and> calls (get_transcript fetch v) = [(v, Some [''en'']), (v, None)]
      \<and> printed (get_transcript fetch v) = [])
   \<and> (fetch v (Some [''en'']) = Inl e \<and> fetch v None = Inl e2 \<longrightarrow>
      returned (get_transcript fetch v) = None
      \<and> calls (get_transcript fetch v) = [(v, Some [''en'']), (v, None)]
      \<and> printed (get_transcript fetch v) = [''Error getting transcript: '' @ e2])
   \<and> (returned (get_transcript fetch v) = None \<longrightarrow>
      isl (fetch v (Some [''en''])) \<and> isl (fetch v None))
   \<and> extract_video_id video_url = ''5zFUBD2rRis''
   \<and> (fetch ''5zFUBD2rRis'' (Some [''en'']) = Inl e \<and> fetch ''5zFUBD2rRis'' None = Inr texts
        \<and> join_sp texts \<noteq> [] \<longrightarrow>
      written (main fetch True) =
        Some (create_blog_outline (clean_transcript (Some (join_sp texts))) video_url))
   \<and> (fetch ''5zFUBD2rRis'' (Some [''en'']) = Inl e \<and> fetch ''5zFUBD2rRis'' None = Inr texts
        \<and> join_sp texts = [] \<longrightarrow>
      written (main fetch writable) = None
      \<and> last (shown (main fetch writable)) =
          ''Could not retrieve transcript. The video may not have captions available.'')"
proof -
  have preferred: "returned (get_transcript fetch v) = Some (join_sp texts)
      \<and> calls (get_transcript fetch v) = [(v, Some [''en''])]
      \<and> printed (get_transcript fetch v) = []"
    if "fetch v (Some [''en'']) = Inr texts"
    using that by (simp add: get_transcript_def)
  have fallback: "returned (get_transcript fetch v) = Some (join_sp texts)
      \<and> calls (get_transcript fetch v) = [(v, Some [''en'']), (v, None)]
      \<and> printed (get_transcript fetch v) = []"
    if "fetch v (Some [''en'']) = Inl e" and "fetch v None = Inr texts" for v
    using that by (simp add: get_transcript_def)
  have absent: "returned (get_transcript fetch v) = None
      \<and> calls (get_transcript fetch v) = [(v, Some [''en'']), (v, None)]
      \<and> printed (get_transcript fetch v) = [''Error getting transcript: '' @ e2]"
    if "fetch v (Some [''en'']) = Inl e" and "fetch v None = Inl e2"
    using that by (simp add: get_transcript_def)
  have only: "isl (fetch v (Some [''en''])) \<and> isl (fetch v None)"
    if "returned (get_transcript fetch v) = None"
    using that by (simp add: get_transcript_def split: sum.splits)
  have proceeds: "written (main fetch True) =
        Some (create_blog_outline (clean_transcript (Some (join_sp texts))) video_url)"
    if "fetch ''5zFUBD2rRis'' (Some [''en'']) = Inl e" and "fetch ''5zFUBD2rRis'' None = Inr texts"
      and "join_sp texts \<noteq> []"
  proof -
    from fallback [OF that(1,2)]
    have "returned (get_transcript fetch ''5zFUBD2rRis'') = Some (join_sp texts)"
      by blast
    then show ?thesis using that(3) by (rule main_proceeds)
  qed
  have stops: "written (main fetch writable) = None
      \<and> last (shown (main fetch writable)) =
          ''Could not retrieve transcript. The video may not have captions available.''"
    if "fetch ''5zFUBD2rRis'' (Some [''en'']) = Inl e" and "fetch ''5zFUBD2rRis'' None = Inr texts"
      and "join_sp texts = []"
  proof -
    from fallback [OF that(1,2)] that(3)
    have "returned (get_transcript fetch ''5zFUBD2rRis'') = Some []"
      by simp
    then show ?thesis by (rule main_stops)
  qed
  from preferred fallback absent only main_video_id proceeds stops show ?thesis
    by blast
qed

theorem get_transcript_fallback_witness:
  "returned (get_transcript (\<lambda>video_id languages.
       if languages = None then Inr [''hello there'', ''world''] else Inl ''no English'')
     ''5zFUBD2rRis'') = Some ''hello there world''
   \<and> written (main (\<lambda>video_id languages.
       if languages = None then Inr [''hello there'', ''world''] else Inl ''no English'') True) =
       Some (create_blog_outline ''hello there world'' video_url)
   \<and> returned (get_transcript (\<lambda>video_id languages. Inl ''no captions'') ''5zFUBD2rRis'') = None
   \<and> printed (get_transcript (\<lambda>video_id languages. Inl ''no captions'') ''5zFUBD2rRis'') =
       [''Error getting transcript: no captions'']
   \<and> isl ((\<lambda>video_id languages. Inl ''no captions'' :: string + string list)
        ''5zFUBD2rRis'' (None :: string list option))
   \<and> written (main (\<lambda>video_id languages.
       if languages = None then Inr [[]] else Inl ''no English'') False) = None"
proof -
  let ?f = "\<lambda>video_id languages.
       if languages = None then Inr [''hello there'', ''world''] else Inl ''no English''"
  let ?g = "\<lambda>video_id languages. Inl ''no captions'' :: string + string list"
  let ?h = "\<lambda>video_id languages. if languages = None then Inr [[]] else Inl ''no English''"
  have clean: "clean_transcript (Some ''hello there world'') = ''hello there world''"
    by code_simp
  have f1: "?f ''5zFUBD2rRis'' (Some [''en'']) = Inl ''no English''"
    and f2: "?f ''5zFUBD2rRis'' None = Inr [''hello there'', ''world'']"
    and f3: "join_sp [''hello there'', ''world''] \<noteq> []"
    by simp_all
  from get_transcript_fallback [where fetch = ?f and v = "''5zFUBD2rRis''"
      and e = "''no English''" and texts = "[''hello there'', ''world'']"] f1 f2 f3
  have "returned (get_transcript ?f ''5zFUBD2rRis'') =
      Some (join_sp [''hello there'', ''world''])"
    and "written (main ?f True) =
      Some (create_blog_outline
        (clean_transcript (Some (join_sp [''hello there'', ''world'']))) video_url)"
    by blast+
  then have first: "returned (get_transcript ?f ''5zFUBD2rRis'') = Some ''hello there world''"
    and second: "written (main ?f True) = Some (create_blog_outline ''hello there world'' video_url)"
    by (simp_all add: clean)
  have g1: "?g ''5zFUBD2rRis'' (Some [''en'']) = Inl ''no captions''"
    and g2: "?g ''5zFUBD2rRis'' None = Inl ''no captions''"
    by simp_all
  from get_transcript_fallback [where fetch = ?g and v = "''5zFUBD2rRis''"
      and e = "''no captions''" and ?e2.0 = "''no captions''"] g1 g2
  have third: "returned (get_transcript ?g ''5zFUBD2rRis'') = None"
    and "printed (get_transcript ?g ''5zFUBD2rRis'') =
      [''Error getting transcript: '' @ ''no captions'']"
    and fifth: "isl (?g ''5zFUBD2rRis'' None)"
    by blast+
  then have fourth: "printed (get_transcript ?g ''5zFUBD2rRis'') =
      [''Error getting transcript: no captions'']"
    by simp
  have h1: "?h ''5zFUBD2rRis'' (Some [''en'']) = Inl ''no English''"
    and h2: "?h ''5zFUBD2rRis'' None = Inr [[]]"
    and h3: "join_sp [[]] = []"
    by simp_all
  from get_transcript_fallback [where fetch = ?h and v = "''5zFUBD2rRis''"
      and e = "''no English''" and texts = "[[]]" and writable = False] h1 h2 h3
  have sixth: "written (main ?h False) = None"
    by blast
  from first second third fourth fifth sixth show ?thesis
    by blast
qed

end
